theory Spec2Isabelle
  imports Complex_Main "HOL-Library.Multiset" "HOL-Library.Signed_Division" "HOL-Library.Word"
begin

section \<open>Cards\<close>

text \<open>
  The enumerations of \<^verbatim>\<open>PokerBot.cpp\<close>. Each enumerator keeps its name; the integer an
  enumerator stands for (\<^verbatim>\<open>static_cast<int>\<close>) is given by \<open>suit_int\<close>, \<open>value_int\<close> and
  \<open>rank_int\<close>. The integers are never negative, so they are natural numbers here and are
  injected into \<open>int\<close> where the source stores them in an \<^verbatim>\<open>int\<close>.
\<close>

datatype Suit = CLUBS | DIAMONDS | HEARTS | SPADES

datatype Value = TWO | THREE | FOUR | FIVE | SIX | SEVEN | EIGHT | NINE | TEN
  | JACK | QUEEN | KING | ACE

datatype HandRank = HIGH_CARD | PAIR | TWO_PAIR | THREE_OF_A_KIND | STRAIGHT | FLUSH
  | FULL_HOUSE | FOUR_OF_A_KIND | STRAIGHT_FLUSH | ROYAL_FLUSH

fun suit_int :: "Suit \<Rightarrow> nat" where
  "suit_int CLUBS = 0"
| "suit_int DIAMONDS = 1"
| "suit_int HEARTS = 2"
| "suit_int SPADES = 3"

fun value_int :: "Value \<Rightarrow> nat" where
  "value_int TWO = 2"
| "value_int THREE = 3"
| "value_int FOUR = 4"
| "value_int FIVE = 5"
| "value_int SIX = 6"
| "value_int SEVEN = 7"
| "value_int EIGHT = 8"
| "value_int NINE = 9"
| "value_int TEN = 10"
| "value_int JACK = 11"
| "value_int QUEEN = 12"
| "value_int KING = 13"
| "value_int ACE = 14"

fun rank_int :: "HandRank \<Rightarrow> nat" where
  "rank_int HIGH_CARD = 0"
| "rank_int PAIR = 1"
| "rank_int TWO_PAIR = 2"
| "rank_int THREE_OF_A_KIND = 3"
| "rank_int STRAIGHT = 4"
| "rank_int FLUSH = 5"
| "rank_int FULL_HOUSE = 6"
| "rank_int FOUR_OF_A_KIND = 7"
| "rank_int STRAIGHT_FLUSH = 8"
| "rank_int ROYAL_FLUSH = 9"

text \<open>
  \<^verbatim>\<open>static_cast<Suit>(i)\<close> and \<^verbatim>\<open>static_cast<Value>(i)\<close>: an integer that is no enumerator of
  the type gives no card of the model (\<open>None\<close>).
\<close>

definition suit_of_int :: "int \<Rightarrow> Suit option" where
  "suit_of_int i =
     (if i = 0 then Some CLUBS else if i = 1 then Some DIAMONDS
      else if i = 2 then Some HEARTS else if i = 3 then Some SPADES else None)"

definition value_of_int :: "int \<Rightarrow> Value option" where
  "value_of_int i =
     (if i = 2 then Some TWO else if i = 3 then Some THREE else if i = 4 then Some FOUR
      else if i = 5 then Some FIVE else if i = 6 then Some SIX else if i = 7 then Some SEVEN
      else if i = 8 then Some EIGHT else if i = 9 then Some NINE else if i = 10 then Some TEN
      else if i = 11 then Some JACK else if i = 12 then Some QUEEN
      else if i = 13 then Some KING else if i = 14 then Some ACE else None)"

text \<open>\<^verbatim>\<open>struct Card { Suit suit; Value value; }\<close>\<close>

datatype Card = Card (suit: Suit) (card_value: Value)

definition toInt :: "Card \<Rightarrow> int" where
  "toInt c = int (suit_int (suit c)) * 13 + int (value_int (card_value c)) - 2"

text \<open>
  \<^verbatim>\<open>Card::fromInt\<close>. The division and remainder of C++ truncate towards zero
  (\<open>sdiv\<close>, \<open>smod\<close>).
\<close>

definition fromInt :: "int \<Rightarrow> Card option" where
  "fromInt cardIndex =
     (let suitIndex = cardIndex sdiv 13;
          valueIndex = cardIndex smod 13 + 2
      in case suit_of_int suitIndex of
           None \<Rightarrow> None
         | Some s \<Rightarrow> (case value_of_int valueIndex of
                        None \<Rightarrow> None
                      | Some v \<Rightarrow> Some (Card s v)))"

definition cardsEqual :: "Card \<Rightarrow> Card \<Rightarrow> bool" where
  "cardsEqual a b = (toInt a = toInt b)"

section \<open>The deck\<close>

text \<open>
  \<^verbatim>\<open>class Deck\<close> has the single member \<^verbatim>\<open>std::vector<Card> cards\<close>; a deck is that vector.
  Errors are values: \<open>DeckExhausted\<close> is the \<^verbatim>\<open>std::runtime_error\<close> thrown by
  \<^verbatim>\<open>Deck::deal\<close>; \<open>UndefinedBehaviour\<close> marks the places where the source would read a
  vector out of range or divide by zero.
\<close>

datatype error = DeckExhausted | UndefinedBehaviour

type_synonym Deck = "Card list"

definition all_suits :: "Suit list" where
  "all_suits = [CLUBS, DIAMONDS, HEARTS, SPADES]"

definition all_values :: "Value list" where
  "all_values = [TWO, THREE, FOUR, FIVE, SIX, SEVEN, EIGHT, NINE, TEN, JACK, QUEEN, KING, ACE]"

text \<open>\<^verbatim>\<open>Deck::reset\<close>: suits 0..3 in the outer loop, values 2..14 in the inner one.\<close>

definition reset :: "Deck" where
  "reset = concat (map (\<lambda>s. map (\<lambda>v. Card s v) all_values) all_suits)"

text \<open>\<^verbatim>\<open>Deck::deal\<close>: throws on the empty deck, otherwise \<^verbatim>\<open>back()\<close> and \<^verbatim>\<open>pop_back()\<close>.\<close>

definition deal :: "Deck \<Rightarrow> error + (Card \<times> Deck)" where
  "deal cards = (if cards = [] then Inl DeckExhausted else Inr (last cards, butlast cards))"

text \<open>\<^verbatim>\<open>Deck::removeCard\<close>: erases the first card equal to the given one, if any.\<close>

fun removeCard :: "Card \<Rightarrow> Deck \<Rightarrow> Deck" where
  "removeCard c [] = []"
| "removeCard c (x # xs) = (if cardsEqual x c then xs else x # removeCard c xs)"

text \<open>
  The random number generator \<^verbatim>\<open>std::rand\<close> is the sequence of numbers it will return;
  a call takes the first and leaves the rest.
\<close>

type_synonym rng = "nat \<Rightarrow> nat"

definition rand :: "rng \<Rightarrow> nat \<times> rng" where
  "rand r = (r 0, \<lambda>n. r (Suc n))"

text \<open>
  \<^verbatim>\<open>Deck::shuffle\<close>, the loop \<^verbatim>\<open>for (i = size - 1; i > 0; --i)\<close>. On the empty deck
  \<^verbatim>\<open>size - 1\<close> wraps around in \<^verbatim>\<open>size_t\<close> and the loop leaves the vector.
\<close>

fun shuffle_loop :: "nat \<Rightarrow> rng \<Rightarrow> Deck \<Rightarrow> Deck \<times> rng" where
  "shuffle_loop 0 r cards = (cards, r)"
| "shuffle_loop (Suc k) r cards =
     (let i = Suc k;
          (x, r') = rand r;
          j = x mod (i + 1)
      in shuffle_loop k r' (cards[i := cards ! j, j := cards ! i]))"

definition shuffle :: "rng \<Rightarrow> Deck \<Rightarrow> error + (Deck \<times> rng)" where
  "shuffle r cards =
     (if cards = [] then Inl UndefinedBehaviour
      else Inr (shuffle_loop (length cards - 1) r cards))"

section \<open>Hand evaluations and their comparison\<close>

text \<open>\<^verbatim>\<open>struct HandEvaluation { HandRank rank; std::vector<int> tiebreakers; }\<close>\<close>

record HandEvaluation =
  rank :: HandRank
  tiebreakers :: "int list"

text \<open>
  The loop of \<^verbatim>\<open>operator>\<close> runs over the indices both vectors have and returns at the
  first difference.
\<close>

fun gt_loop :: "int list \<Rightarrow> int list \<Rightarrow> bool" where
  "gt_loop (x # xs) (y # ys) = (if x \<noteq> y then x > y else gt_loop xs ys)"
| "gt_loop _ _ = False"

definition gt :: "HandEvaluation \<Rightarrow> HandEvaluation \<Rightarrow> bool" where
  "gt a b =
     (if rank a \<noteq> rank b then rank_int (rank a) > rank_int (rank b)
      else gt_loop (tiebreakers a) (tiebreakers b))"

text \<open>
  \<^verbatim>\<open>operator==\<close>: different ranks or different sizes are unequal, then the loop looks for
  a difference.
\<close>

fun eq_loop :: "int list \<Rightarrow> int list \<Rightarrow> bool" where
  "eq_loop (x # xs) (y # ys) = (if x \<noteq> y then False else eq_loop xs ys)"
| "eq_loop _ _ = True"

definition eq :: "HandEvaluation \<Rightarrow> HandEvaluation \<Rightarrow> bool" where
  "eq a b =
     (if rank a \<noteq> rank b then False
      else if length (tiebreakers a) \<noteq> length (tiebreakers b) then False
      else eq_loop (tiebreakers a) (tiebreakers b))"

section \<open>The hand evaluator\<close>

text \<open>
  \<^verbatim>\<open>HandEvaluator::evaluateComplete\<close>, block by block. \<^verbatim>\<open>valueCounts\<close> is a vector of 15
  counters indexed by the card value, \<^verbatim>\<open>suitCounts\<close> one of 4 counters indexed by the suit.
\<close>

definition valueCounts :: "Card list \<Rightarrow> nat list" where
  "valueCounts cards =
     foldl (\<lambda>vc c. vc[value_int (card_value c) := vc ! value_int (card_value c) + 1])
       (replicate 15 0) cards"

definition suitCounts :: "Card list \<Rightarrow> nat list" where
  "suitCounts cards =
     foldl (\<lambda>sc c. sc[suit_int (suit c) := sc ! suit_int (suit c) + 1])
       (replicate 4 0) cards"

text \<open>The flush check: the first suit, in enumeration order, with five or more cards.\<close>

definition findFlush :: "nat list \<Rightarrow> bool \<times> Suit" where
  "findFlush sc =
     (case find (\<lambda>s. sc ! suit_int s \<ge> 5) all_suits of
        None \<Rightarrow> (False, CLUBS)
      | Some s \<Rightarrow> (True, s))"

text \<open>
  The straight check: first the ace-low straight, then the windows that start at
  10, 9, ..., 2, the first hit ending the loop. The result is the pair
  (\<^verbatim>\<open>hasStraight\<close>, \<^verbatim>\<open>straightHighCard\<close>).
\<close>

definition window :: "nat list \<Rightarrow> nat \<Rightarrow> bool" where
  "window vc i =
     (vc ! i > 0 \<and> vc ! (i + 1) > 0 \<and> vc ! (i + 2) > 0 \<and> vc ! (i + 3) > 0 \<and> vc ! (i + 4) > 0)"

definition detectStraight :: "nat list \<Rightarrow> bool \<times> nat" where
  "detectStraight vc =
     (let aceLow = (if vc ! 14 > 0 \<and> vc ! 2 > 0 \<and> vc ! 3 > 0 \<and> vc ! 4 > 0 \<and> vc ! 5 > 0
                    then (True, 5) else (False, 0))
      in case find (window vc) (rev [2..<11]) of
           Some i \<Rightarrow> (True, i + 4)
         | None \<Rightarrow> aceLow)"

text \<open>
  \<^verbatim>\<open>std::sort\<close> with \<^verbatim>\<open>std::greater<int>\<close>, and with \<^verbatim>\<open>compareCardsByValueDesc\<close> on
  cards of one suit (cards of equal value are then equal, so the result does not depend
  on the sorting algorithm).
\<close>

definition sort_desc :: "nat list \<Rightarrow> nat list" where
  "sort_desc xs = rev (sort xs)"

definition sortCardsByValueDesc :: "Card list \<Rightarrow> Card list" where
  "sortCardsByValueDesc cs = rev (sort_key (\<lambda>c. value_int (card_value c)) cs)"

definition flushCardsOf :: "bool \<Rightarrow> Suit \<Rightarrow> Card list \<Rightarrow> Card list" where
  "flushCardsOf hasFlush flushSuit cards =
     (if hasFlush then sortCardsByValueDesc (filter (\<lambda>c. suit c = flushSuit) cards) else [])"

text \<open>
  The straight-flush check, giving (\<^verbatim>\<open>hasStraightFlush\<close>, \<^verbatim>\<open>straightFlushHighCard\<close>).
  The last loop runs \<^verbatim>\<open>for (i = 0; i <= flushValues.size() - 5; i++)\<close> in \<^verbatim>\<open>size_t\<close>: with
  fewer than five distinct values the bound wraps around and the loop reads
  \<^verbatim>\<open>flushValues[4]\<close> out of range.
\<close>

definition detectStraightFlush ::
  "bool \<Rightarrow> Card list \<Rightarrow> bool \<Rightarrow> nat \<Rightarrow> error + (bool \<times> nat)" where
  "detectStraightFlush hasFlush flushCards hasStraight straightHighCard =
     (if hasFlush \<and> length flushCards \<ge> 5 then
        (let isRoyal = (hasStraight \<and> straightHighCard = 14 \<and>
               list_all (\<lambda>v. list_ex (\<lambda>c. value_int (card_value c) = v) flushCards) [10..<15])
         in if isRoyal then Inr (True, 14)
            else
              (let flushValues =
                     remdups_adj (sort_desc (map (\<lambda>c. value_int (card_value c)) flushCards));
                   aceLow = (if 14 \<in> set flushValues \<and> 2 \<in> set flushValues \<and>
                                3 \<in> set flushValues \<and> 4 \<in> set flushValues \<and>
                                5 \<in> set flushValues
                             then (True, 5) else (False, 0))
               in if length flushValues < 5 then Inl UndefinedBehaviour
                  else (case find (\<lambda>i. flushValues ! i = flushValues ! (i + 4) + 4)
                               [0..<length flushValues - 5 + 1] of
                          Some i \<Rightarrow> Inr (True, flushValues ! i)
                        | None \<Rightarrow> Inr aceLow)))
      else Inr (False, 0))"

text \<open>
  The groups of equal values (the branches \<^verbatim>\<open>== 4\<close>, \<^verbatim>\<open>== 3\<close>, \<^verbatim>\<open>== 2\<close> exclude each
  other), and the values that occur once (\<^verbatim>\<open>highCards\<close>, filled from 14 down to 2).
\<close>

definition quadsOf :: "nat list \<Rightarrow> nat list" where
  "quadsOf vc = sort_desc (filter (\<lambda>i. vc ! i = 4) [2..<15])"

definition tripsOf :: "nat list \<Rightarrow> nat list" where
  "tripsOf vc = sort_desc (filter (\<lambda>i. vc ! i = 3) [2..<15])"

definition pairsOf :: "nat list \<Rightarrow> nat list" where
  "pairsOf vc = sort_desc (filter (\<lambda>i. vc ! i = 2) [2..<15])"

definition highCardsOf :: "nat list \<Rightarrow> nat list" where
  "highCardsOf vc = filter (\<lambda>i. vc ! i = 1) (rev [2..<15])"

text \<open>The chain of \<^verbatim>\<open>if\<close> / \<^verbatim>\<open>else if\<close> that fixes the rank and the tiebreakers.\<close>

definition resolve ::
  "nat list \<Rightarrow> bool \<Rightarrow> Card list \<Rightarrow> bool \<Rightarrow> nat \<Rightarrow> bool \<Rightarrow> nat \<Rightarrow> HandEvaluation" where
  "resolve vc hasFlush flushCards hasStraight straightHighCard
       hasStraightFlush straightFlushHighCard =
     (let quads = quadsOf vc; trips = tripsOf vc; pairs = pairsOf vc;
          highCards = highCardsOf vc
      in if hasStraightFlush \<and> straightFlushHighCard = 14 then
           \<lparr>rank = ROYAL_FLUSH, tiebreakers = [14]\<rparr>
         else if hasStraightFlush then
           \<lparr>rank = STRAIGHT_FLUSH, tiebreakers = [int straightFlushHighCard]\<rparr>
         else if quads \<noteq> [] then
           \<lparr>rank = FOUR_OF_A_KIND,
            tiebreakers = int (quads ! 0) #
              (case find (\<lambda>i. vc ! i > 0 \<and> i \<noteq> quads ! 0) (rev [2..<15]) of
                 Some i \<Rightarrow> [int i] | None \<Rightarrow> [])\<rparr>
         else if trips \<noteq> [] \<and> (pairs \<noteq> [] \<or> length trips > 1) then
           \<lparr>rank = FULL_HOUSE,
            tiebreakers = [int (trips ! 0),
                           if pairs \<noteq> [] then int (pairs ! 0) else int (trips ! 1)]\<rparr>
         else if hasFlush then
           \<lparr>rank = FLUSH,
            tiebreakers = map (\<lambda>c. int (value_int (card_value c))) (take 5 flushCards)\<rparr>
         else if hasStraight then
           \<lparr>rank = STRAIGHT, tiebreakers = [int straightHighCard]\<rparr>
         else if trips \<noteq> [] then
           \<lparr>rank = THREE_OF_A_KIND,
            tiebreakers = int (trips ! 0) # map int (take 2 highCards)\<rparr>
         else if length pairs \<ge> 2 then
           \<lparr>rank = TWO_PAIR,
            tiebreakers = int (pairs ! 0) # int (pairs ! 1) # map int (take 1 highCards)\<rparr>
         else if length pairs = 1 then
           \<lparr>rank = PAIR,
            tiebreakers = int (pairs ! 0) # map int (take 3 highCards)\<rparr>
         else
           \<lparr>rank = HIGH_CARD,
            tiebreakers = map int (take 5 (filter (\<lambda>i. vc ! i > 0) (rev [2..<15])))\<rparr>)"

definition evaluateComplete :: "Card list \<Rightarrow> error + HandEvaluation" where
  "evaluateComplete cards =
     (let vc = valueCounts cards;
          sc = suitCounts cards;
          (hasFlush, flushSuit) = findFlush sc;
          (hasStraight, straightHighCard) = detectStraight vc;
          flushCards = flushCardsOf hasFlush flushSuit cards
      in case detectStraightFlush hasFlush flushCards hasStraight straightHighCard of
           Inl e \<Rightarrow> Inl e
         | Inr (hasStraightFlush, straightFlushHighCard) \<Rightarrow>
             Inr (resolve vc hasFlush flushCards hasStraight straightHighCard
                    hasStraightFlush straightFlushHighCard))"

text \<open>
  A \<^verbatim>\<open>while (v.size() < n) v.push_back(deck.deal())\<close> loop, as in
  \<^verbatim>\<open>HandEvaluator::evaluate\<close> (\<open>n = 7\<close>) and \<^verbatim>\<open>PokerGame::dealFlop\<close> (\<open>n = 3\<close>).
\<close>

function dealUntil :: "nat \<Rightarrow> Card list \<Rightarrow> Deck \<Rightarrow> error + (Card list \<times> Deck)" where
  "dealUntil n v d =
     (if length v < n then
        (case deal d of
           Inl e \<Rightarrow> Inl e
         | Inr (c, d') \<Rightarrow> dealUntil n (v @ [c]) d')
      else Inr (v, d))"
  by pat_completeness auto
termination
  by (relation "measure (\<lambda>(n, v, d). n - length v)") auto

text \<open>
  \<^verbatim>\<open>HandEvaluator::evaluate\<close>: a hand that has not exactly 7 cards is filled from a fresh
  deck without the cards of the hand, shuffled.
\<close>

definition evaluate :: "rng \<Rightarrow> Card list \<Rightarrow> error + (HandEvaluation \<times> rng)" where
  "evaluate r cards =
     (if length cards \<noteq> 7 then
        (let tempDeck = foldl (\<lambda>d c. removeCard c d) reset cards
         in case shuffle r tempDeck of
              Inl e \<Rightarrow> Inl e
            | Inr (tempDeck', r') \<Rightarrow>
                (case dealUntil 7 cards tempDeck' of
                   Inl e \<Rightarrow> Inl e
                 | Inr (fullHand, _) \<Rightarrow>
                     (case evaluateComplete fullHand of
                        Inl e \<Rightarrow> Inl e
                      | Inr ev \<Rightarrow> Inr (ev, r'))))
      else (case evaluateComplete cards of
              Inl e \<Rightarrow> Inl e
            | Inr ev \<Rightarrow> Inr (ev, r)))"

section \<open>The simulation\<close>

text \<open>\<^verbatim>\<open>class PokerGame\<close>\<close>

record PokerGame =
  deck :: Deck
  botHoleCards :: "Card list"
  opponentHoleCards :: "Card list"
  communityCards :: "Card list"

text \<open>One \<^verbatim>\<open>v.push_back(deck.deal())\<close> on the community cards.\<close>

definition dealCommunity :: "PokerGame \<Rightarrow> error + PokerGame" where
  "dealCommunity g =
     (case deal (deck g) of
        Inl e \<Rightarrow> Inl e
      | Inr (c, d') \<Rightarrow> Inr (g\<lparr>deck := d', communityCards := communityCards g @ [c]\<rparr>))"

text \<open>\<^verbatim>\<open>PokerGame::initialize(knownBotCards, knownCommunityCards)\<close>\<close>

definition initialize :: "rng \<Rightarrow> Card list \<Rightarrow> Card list \<Rightarrow> PokerGame \<Rightarrow> error + (PokerGame \<times> rng)" where
  "initialize r knownBotCards knownCommunityCards g =
     (let d0 = reset;
          d1 = foldl (\<lambda>d c. removeCard c d) d0 knownBotCards;
          d2 = foldl (\<lambda>d c. removeCard c d) d1 knownCommunityCards
      in case shuffle r d2 of
           Inl e \<Rightarrow> Inl e
         | Inr (d3, r') \<Rightarrow>
             (case deal d3 of
                Inl e \<Rightarrow> Inl e
              | Inr (o1, d4) \<Rightarrow>
                  (case deal d4 of
                     Inl e \<Rightarrow> Inl e
                   | Inr (o2, d5) \<Rightarrow>
                       Inr (g\<lparr>deck := d5, botHoleCards := knownBotCards,
                               opponentHoleCards := [o1, o2],
                               communityCards := knownCommunityCards\<rparr>, r'))))"

definition dealFlop :: "PokerGame \<Rightarrow> error + PokerGame" where
  "dealFlop g =
     (if length (communityCards g) \<ge> 3 then Inr g
      else (case dealUntil 3 (communityCards g) (deck g) of
              Inl e \<Rightarrow> Inl e
            | Inr (v, d') \<Rightarrow> Inr (g\<lparr>deck := d', communityCards := v\<rparr>)))"

definition dealTurn :: "PokerGame \<Rightarrow> error + PokerGame" where
  "dealTurn g =
     (if length (communityCards g) \<ge> 4 then Inr g
      else (case (if length (communityCards g) < 3 then dealFlop g else Inr g) of
              Inl e \<Rightarrow> Inl e
            | Inr g' \<Rightarrow> dealCommunity g'))"

definition dealRiver :: "PokerGame \<Rightarrow> error + PokerGame" where
  "dealRiver g =
     (if length (communityCards g) \<ge> 5 then Inr g
      else (case (if length (communityCards g) < 4 then dealTurn g else Inr g) of
              Inl e \<Rightarrow> Inl e
            | Inr g' \<Rightarrow> dealCommunity g'))"

definition completeBoard :: "PokerGame \<Rightarrow> error + PokerGame" where
  "completeBoard g = dealRiver g"

text \<open>
  \<^verbatim>\<open>PokerGame::isWinner\<close>: the board is completed, both hands are evaluated, and the
  result is \<^verbatim>\<open>botEval > opponentEval\<close>.
\<close>

definition isWinner :: "rng \<Rightarrow> PokerGame \<Rightarrow> error + (bool \<times> PokerGame \<times> rng)" where
  "isWinner r g =
     (case completeBoard g of
        Inl e \<Rightarrow> Inl e
      | Inr g' \<Rightarrow>
          (let botHand = botHoleCards g' @ communityCards g';
               opponentHand = opponentHoleCards g' @ communityCards g'
           in case evaluate r botHand of
                Inl e \<Rightarrow> Inl e
              | Inr (botEval, r') \<Rightarrow>
                  (case evaluate r' opponentHand of
                     Inl e \<Rightarrow> Inl e
                   | Inr (opponentEval, r'') \<Rightarrow> Inr (gt botEval opponentEval, g', r''))))"

text \<open>
  \<^verbatim>\<open>class MCTSNode\<close>. The counters \<^verbatim>\<open>wins\<close> and \<^verbatim>\<open>visits\<close> are 32-bit \<^verbatim>\<open>int\<close>s: words of
  32 bits, read as two's complement by \<open>sint\<close>, on which \<^verbatim>\<open>++\<close> wraps around. The member
  \<^verbatim>\<open>explorationParameter\<close> is read by \<^verbatim>\<open>getUCB1Value\<close> only, which nothing calls; it is
  left out.

  \<^verbatim>\<open>getWinProbability\<close> returns a \<^verbatim>\<open>double\<close>: 0.0 for a node without visits, otherwise the
  quotient of the two counters rounded to the nearest \<^verbatim>\<open>double\<close>. Here it is the exact
  quotient, a rational number. The two agree on the value 0 and on every comparison
  with 0.5: 0.5 is a \<^verbatim>\<open>double\<close>, rounding is monotone, and a quotient of two 32-bit
  integers other than 0.5 is further from 0.5 than a \<^verbatim>\<open>double\<close> is from its neighbour.
  Nothing below depends on the quotient beyond that.
\<close>

type_synonym int32 = "32 word"

type_synonym clock_t = "64 word"

record MCTSNode =
  wins :: int32
  visits :: int32

definition MCTSNode_new :: "MCTSNode" where
  "MCTSNode_new = \<lparr>wins = 0, visits = 0\<rparr>"

definition update :: "bool \<Rightarrow> MCTSNode \<Rightarrow> MCTSNode" where
  "update isWin n =
     (let n' = n\<lparr>visits := visits n + 1\<rparr>
      in if isWin then n'\<lparr>wins := wins n' + 1\<rparr> else n')"

definition getWinProbability :: "MCTSNode \<Rightarrow> rat" where
  "getWinProbability n =
     (if visits n = 0 then 0 else of_int (sint (wins n)) / of_int (sint (visits n)))"

text \<open>\<^verbatim>\<open>class PokerBot\<close>\<close>

record PokerBot =
  game :: PokerGame
  myCards :: "Card list"
  community :: "Card list"
  totalRuns :: int32
  winningRuns :: int32
  rootNode :: MCTSNode

definition WIN_PROBABILITY_THRESHOLD :: rat where
  "WIN_PROBABILITY_THRESHOLD = 1 / 2"

definition setKnownCards :: "Card list \<Rightarrow> Card list \<Rightarrow> PokerBot \<Rightarrow> PokerBot" where
  "setKnownCards holeCards communityCards' b = b\<lparr>myCards := holeCards, community := communityCards'\<rparr>"

definition runSingleSimulation :: "rng \<Rightarrow> PokerBot \<Rightarrow> error + (bool \<times> PokerBot \<times> rng)" where
  "runSingleSimulation r b =
     (case initialize r (myCards b) (community b) (game b) of
        Inl e \<Rightarrow> Inl e
      | Inr (g1, r1) \<Rightarrow>
          (case completeBoard g1 of
             Inl e \<Rightarrow> Inl e
           | Inr g2 \<Rightarrow>
               (case isWinner r1 g2 of
                  Inl e \<Rightarrow> Inl e
                | Inr (won, g3, r2) \<Rightarrow> Inr (won, b\<lparr>game := g3\<rparr>, r2))))"

text \<open>
  The three statements of the loop of \<^verbatim>\<open>runMCTS\<close> that follow the simulation:
  \<^verbatim>\<open>rootNode.update(won); totalRuns++; if (won) winningRuns++;\<close>
  on the 32-bit counters \<^verbatim>\<open>totalRuns\<close> and \<^verbatim>\<open>winningRuns\<close>.
\<close>

definition recordRun :: "bool \<Rightarrow> PokerBot \<Rightarrow> PokerBot" where
  "recordRun won b =
     (let b1 = b\<lparr>rootNode := update won (rootNode b)\<rparr>;
          b2 = b1\<lparr>totalRuns := totalRuns b1 + 1\<rparr>
      in if won then b2\<lparr>winningRuns := winningRuns b2 + 1\<rparr> else b2)"

text \<open>
  The clock. \<^verbatim>\<open>runMCTS\<close> reads \<^verbatim>\<open>clock()\<close> once before the loop and once at the start
  of every iteration; the readings the loop will get are a list, and a run that uses
  them up before the limit is reached has not returned (\<open>None\<close>).

  \<^verbatim>\<open>clock_t\<close> is the 64-bit \<^verbatim>\<open>long\<close> of Linux and \<^verbatim>\<open>CLOCKS_PER_SEC\<close> the value POSIX
  fixes. In \<^verbatim>\<open>int elapsedMs = ((currentTime - startTime) * 1000) / CLOCKS_PER_SEC\<close> the
  difference and the product are computed in 64 bits, the division truncates towards
  zero, and the quotient is narrowed to the 32-bit \<^verbatim>\<open>int\<close>, which keeps its low 32 bits.
  The test \<^verbatim>\<open>elapsedMs >= msTimeLimit\<close> compares two signed 32-bit integers.
\<close>

definition CLOCKS_PER_SEC :: int where
  "CLOCKS_PER_SEC = 1000000"

definition elapsedMs :: "clock_t \<Rightarrow> clock_t \<Rightarrow> int32" where
  "elapsedMs startTime currentTime =
     word_of_int (sint ((currentTime - startTime) * 1000) sdiv CLOCKS_PER_SEC)"

fun runMCTS_loop ::
  "int32 \<Rightarrow> clock_t \<Rightarrow> clock_t list \<Rightarrow> rng \<Rightarrow> PokerBot \<Rightarrow> (error + (PokerBot \<times> rng)) option" where
  "runMCTS_loop msTimeLimit startTime [] r b = None"
| "runMCTS_loop msTimeLimit startTime (currentTime # clock) r b =
     (if sint (elapsedMs startTime currentTime) \<ge> sint msTimeLimit then Some (Inr (b, r))
      else (case runSingleSimulation r b of
              Inl e \<Rightarrow> Some (Inl e)
            | Inr (won, b', r') \<Rightarrow>
                runMCTS_loop msTimeLimit startTime clock r' (recordRun won b')))"

definition getWinProbabilityBot :: "PokerBot \<Rightarrow> rat" where
  "getWinProbabilityBot b = getWinProbability (rootNode b)"

definition runMCTS ::
  "int32 \<Rightarrow> clock_t \<Rightarrow> clock_t list \<Rightarrow> rng \<Rightarrow> PokerBot
     \<Rightarrow> (error + (rat \<times> PokerBot \<times> rng)) option" where
  "runMCTS msTimeLimit startTime clock r b =
     (let b0 = b\<lparr>totalRuns := 0, winningRuns := 0, rootNode := MCTSNode_new\<rparr>
      in case runMCTS_loop msTimeLimit startTime clock r b0 of
           None \<Rightarrow> None
         | Some (Inl e) \<Rightarrow> Some (Inl e)
         | Some (Inr (b', r')) \<Rightarrow> Some (Inr (getWinProbabilityBot b', b', r')))"

definition shouldStay :: "PokerBot \<Rightarrow> bool" where
  "shouldStay b = (getWinProbabilityBot b \<ge> WIN_PROBABILITY_THRESHOLD)"

section \<open>Notions used to state the properties\<close>

text \<open>
  A 7-card hand: seven pairwise different cards. \<open>rankCount\<close> and \<open>suitCount\<close> count the
  cards of a value and of a suit; \<open>hasRank\<close> says that a value occurs.
\<close>

definition hand7 :: "Card list \<Rightarrow> bool" where
  "hand7 cs = (length cs = 7 \<and> distinct cs)"

definition rankCount :: "Card list \<Rightarrow> nat \<Rightarrow> nat" where
  "rankCount cs v = length (filter (\<lambda>c. value_int (card_value c) = v) cs)"

definition suitCount :: "Card list \<Rightarrow> Suit \<Rightarrow> nat" where
  "suitCount cs s = length (filter (\<lambda>c. suit c = s) cs)"

definition hasRank :: "Card list \<Rightarrow> nat \<Rightarrow> bool" where
  "hasRank cs v = list_ex (\<lambda>c. value_int (card_value c) = v) cs"

text \<open>
  Five consecutive values ending in the high card \<open>h\<close> (6 to 14), and the wheel
  A-2-3-4-5.
\<close>

definition straightTo :: "Card list \<Rightarrow> nat \<Rightarrow> bool" where
  "straightTo cs h = list_all (hasRank cs) [h - 4..<h + 1]"

definition wheel :: "Card list \<Rightarrow> bool" where
  "wheel cs = list_all (hasRank cs) [14, 2, 3, 4, 5]"

text \<open>The same within one suit: a straight flush is present in the cards.\<close>

definition hasCard :: "Card list \<Rightarrow> Suit \<Rightarrow> nat \<Rightarrow> bool" where
  "hasCard cs s v = list_ex (\<lambda>c. suit c = s \<and> value_int (card_value c) = v) cs"

definition straightFlushPresent :: "Card list \<Rightarrow> bool" where
  "straightFlushPresent cs =
     list_ex (\<lambda>s. list_all (hasCard cs s) [14, 2, 3, 4, 5] \<or>
                  list_ex (\<lambda>h. list_all (hasCard cs s) [h - 4..<h + 1]) [6..<15])
       all_suits"

text \<open>
  All the cards a game holds, in the deck and on the table, as a multiset; and the known
  inputs of a trial: 2 hole cards and 0, 3, 4 or 5 community cards, pairwise different.
\<close>

definition cardsOf :: "PokerGame \<Rightarrow> Card multiset" where
  "cardsOf g =
     mset (deck g) + mset (botHoleCards g) + mset (opponentHoleCards g) + mset (communityCards g)"

definition knownHand :: "Card list \<Rightarrow> Card list \<Rightarrow> bool" where
  "knownHand holeCards communityCards' =
     (length holeCards = 2 \<and> length communityCards' \<in> {0, 3, 4, 5} \<and>
      distinct (holeCards @ communityCards'))"

text \<open>Four cards of one value are present.\<close>

definition hasQuads :: "Card list \<Rightarrow> bool" where
  "hasQuads cs = list_ex (\<lambda>v. rankCount cs v = 4) [2..<15]"

text \<open>The number of tiebreakers that goes with each rank.\<close>

fun tiebreakerCount :: "HandRank \<Rightarrow> nat" where
  "tiebreakerCount ROYAL_FLUSH = 1"
| "tiebreakerCount STRAIGHT_FLUSH = 1"
| "tiebreakerCount STRAIGHT = 1"
| "tiebreakerCount FOUR_OF_A_KIND = 2"
| "tiebreakerCount FULL_HOUSE = 2"
| "tiebreakerCount THREE_OF_A_KIND = 3"
| "tiebreakerCount TWO_PAIR = 3"
| "tiebreakerCount PAIR = 4"
| "tiebreakerCount FLUSH = 5"
| "tiebreakerCount HIGH_CARD = 5"

section \<open>Properties of the card encoding and of the deck\<close>

lemma value_int_range: "2 \<le> value_int v \<and> value_int v \<le> 14"
  by (cases v) simp_all

lemma suit_int_range: "suit_int s \<le> 3"
  by (cases s) simp_all

lemma value_int_inj: "value_int a = value_int b \<longleftrightarrow> a = b"
  by (cases a; cases b) simp_all

lemma suit_int_inj: "suit_int a = suit_int b \<longleftrightarrow> a = b"
  by (cases a; cases b) simp_all

lemma suit_of_int_suit_int: "suit_of_int (int (suit_int s)) = Some s"
  by (cases s) (simp_all add: suit_of_int_def)

lemma value_of_int_value_int: "value_of_int (int (value_int v)) = Some v"
  by (cases v) (simp_all add: value_of_int_def)

lemma toInt_bounds: "0 \<le> toInt c \<and> toInt c \<le> 51"
  using value_int_range [of "card_value c"] suit_int_range [of "suit c"]
  by (simp add: toInt_def)

lemma sdiv_nonneg: "0 \<le> k \<Longrightarrow> 0 < l \<Longrightarrow> k sdiv l = k div (l::int)"
  by (cases "k = 0") (simp_all add: signed_divide_int_def)

lemma smod_nonneg: "0 \<le> k \<Longrightarrow> 0 < l \<Longrightarrow> k smod l = k mod (l::int)"
  by (cases "k = 0") (simp_all add: signed_modulo_int_def)

lemma toInt_div: "toInt c sdiv 13 = int (suit_int (suit c))"
proof -
  have "toInt c = int (suit_int (suit c)) * 13 + (int (value_int (card_value c)) - 2)"
    by (simp add: toInt_def)
  moreover have "0 \<le> int (value_int (card_value c)) - 2" "int (value_int (card_value c)) - 2 < 13"
    using value_int_range [of "card_value c"] by auto
  ultimately have "toInt c div 13 = int (suit_int (suit c))"
    by simp
  then show ?thesis using toInt_bounds [of c] by (simp add: sdiv_nonneg)
qed

lemma toInt_mod: "toInt c smod 13 = int (value_int (card_value c)) - 2"
proof -
  have "toInt c = int (suit_int (suit c)) * 13 + (int (value_int (card_value c)) - 2)"
    by (simp add: toInt_def)
  moreover have "0 \<le> int (value_int (card_value c)) - 2" "int (value_int (card_value c)) - 2 < 13"
    using value_int_range [of "card_value c"] by auto
  ultimately have "toInt c mod 13 = int (value_int (card_value c)) - 2"
    by simp
  then show ?thesis using toInt_bounds [of c] by (simp add: smod_nonneg)
qed

lemma fromInt_toInt: "fromInt (toInt c) = Some c"
  by (simp add: fromInt_def toInt_div toInt_mod suit_of_int_suit_int value_of_int_value_int)

lemma toInt_inj: "toInt a = toInt b \<longleftrightarrow> a = b"
  by (metis fromInt_toInt option.inject)

lemma suit_of_int_Some: "0 \<le> i \<Longrightarrow> i \<le> 3 \<Longrightarrow> \<exists>s. suit_of_int i = Some s \<and> int (suit_int s) = i"
  by (auto simp: suit_of_int_def)

lemma value_of_int_Some: "2 \<le> i \<Longrightarrow> i \<le> 14 \<Longrightarrow> \<exists>v. value_of_int i = Some v \<and> int (value_int v) = i"
proof -
  assume "2 \<le> i" "i \<le> 14"
  then have "i \<in> {14, 13, 12, 11, 10, 9, 8, 7, 6, 5, 4, 3, 2}"
    by (simp; arith)
  then show ?thesis
    by (auto simp: value_of_int_def)
qed

lemma toInt_fromInt:
  assumes "0 \<le> n" "n \<le> 51"
  shows "\<exists>c. fromInt n = Some c \<and> toInt c = n"
proof -
  have d: "n sdiv 13 = n div 13" and m: "n smod 13 = n mod 13"
    using assms by (simp_all add: sdiv_nonneg smod_nonneg)
  have "0 \<le> n div 13" "n div 13 \<le> 3" using assms by auto
  then obtain s where s: "suit_of_int (n div 13) = Some s" "int (suit_int s) = n div 13"
    using suit_of_int_Some by blast
  have "2 \<le> n mod 13 + 2" "n mod 13 + 2 \<le> 14" by auto
  then obtain v where v: "value_of_int (n mod 13 + 2) = Some v" "int (value_int v) = n mod 13 + 2"
    using value_of_int_Some by blast
  have "fromInt n = Some (Card s v)"
    by (simp add: fromInt_def d m s v)
  moreover have "toInt (Card s v) = n"
    by (simp add: toInt_def s v)
  ultimately show ?thesis by blast
qed

text \<open>
  Claim C9. The encoding of cards is a bijection with the integers 0..51: \<open>toInt c\<close> lies
  in that range and \<open>fromInt\<close> gives the card back, and every integer of the range is
  decoded to a card whose code it is.
\<close>

theorem card_encoding_bijection:
  "(0 \<le> toInt c \<and> toInt c \<le> 51 \<and> fromInt (toInt c) = Some c) \<and>
   (0 \<le> n \<and> n \<le> 51 \<longrightarrow> (\<exists>c'. fromInt n = Some c' \<and> toInt c' = n))"
  using toInt_bounds fromInt_toInt toInt_fromInt by blast

theorem card_encoding_bijection_witness:
  "(0 \<le> toInt (Card SPADES ACE) \<and> toInt (Card SPADES ACE) \<le> 51 \<and>
    fromInt (toInt (Card SPADES ACE)) = Some (Card SPADES ACE)) \<and>
   (0 \<le> (17::int) \<and> (17::int) \<le> 51) \<and> (\<exists>c'. fromInt 17 = Some c' \<and> toInt c' = 17)"
  using card_encoding_bijection [of "Card SPADES ACE" 17] by simp

text \<open>
  Claim C8. \<open>deal\<close> fails, with \<open>DeckExhausted\<close>, exactly on the empty deck; on any other
  deck it returns the last card and leaves the cards before it, so a deck of one card
  gives that card and the empty deck.
\<close>

theorem deal_exhausted_iff_empty:
  "(deal d = Inl DeckExhausted \<longleftrightarrow> d = []) \<and>
   (\<forall>e. deal d = Inl e \<longrightarrow> e = DeckExhausted \<and> d = []) \<and>
   (d \<noteq> [] \<longrightarrow> deal d = Inr (last d, butlast d) \<and> butlast d @ [last d] = d) \<and>
   deal (d' @ [c]) = Inr (c, d') \<and>
   deal [c] = Inr (c, [])"
  by (auto simp: deal_def)

theorem deal_exhausted_iff_empty_witness:
  "deal [] = Inl DeckExhausted \<and>
   [Card HEARTS TEN, Card CLUBS TWO] \<noteq> [] \<and>
   deal [Card HEARTS TEN, Card CLUBS TWO] = Inr (Card CLUBS TWO, [Card HEARTS TEN]) \<and>
   deal [Card CLUBS TWO] = Inr (Card CLUBS TWO, [])"
  using deal_exhausted_iff_empty [of "[]"]
    deal_exhausted_iff_empty [of "[Card HEARTS TEN, Card CLUBS TWO]" "[]" "Card CLUBS TWO"]
  by simp

section \<open>Properties of the comparison\<close>

lemma rank_int_inj: "rank_int a = rank_int b \<longleftrightarrow> a = b"
  by (cases a; cases b) simp_all

lemma gt_loop_asym: "gt_loop xs ys \<Longrightarrow> \<not> gt_loop ys xs"
  by (induction xs ys rule: gt_loop.induct) (auto split: if_splits)

lemma eq_loop_iff: "length xs = length ys \<Longrightarrow> eq_loop xs ys \<longleftrightarrow> xs = ys"
  by (induction xs ys rule: list_induct2) auto

lemma gt_loop_total: "length xs = length ys \<Longrightarrow> gt_loop xs ys \<or> gt_loop ys xs \<or> xs = ys"
  by (induction xs ys rule: list_induct2) auto

lemma gt_loop_irrefl: "\<not> gt_loop xs xs"
  by (induction xs) auto

lemma gt_loop_first_difference:
  "gt_loop xs ys \<longleftrightarrow>
     (\<exists>i. i < length xs \<and> i < length ys \<and> take i xs = take i ys \<and> xs ! i > ys ! i)"
proof (induction xs ys rule: gt_loop.induct)
  case (1 x xs y ys)
  show ?case
  proof (cases "x = y")
    case True
    have "(\<exists>i. i < length (x # xs) \<and> i < length (y # ys) \<and> take i (x # xs) = take i (y # ys)
              \<and> (x # xs) ! i > (y # ys) ! i)
        \<longleftrightarrow> (\<exists>i. i < length xs \<and> i < length ys \<and> take i xs = take i ys \<and> xs ! i > ys ! i)"
      (is "?L \<longleftrightarrow> ?R")
    proof
      assume ?L
      then obtain i where i: "i < length (x # xs)" "i < length (y # ys)"
        "take i (x # xs) = take i (y # ys)" "(x # xs) ! i > (y # ys) ! i" by blast
      with True obtain j where "i = Suc j" by (cases i) auto
      with i show ?R by auto
    next
      assume ?R
      then obtain i where "i < length xs" "i < length ys" "take i xs = take i ys" "xs ! i > ys ! i"
        by blast
      with True have "Suc i < length (x # xs) \<and> Suc i < length (y # ys) \<and>
         take (Suc i) (x # xs) = take (Suc i) (y # ys) \<and> (x # xs) ! Suc i > (y # ys) ! Suc i"
        by simp
      then show ?L by blast
    qed
    with True 1 show ?thesis by simp
  next
    case False
    have "gt_loop (x # xs) (y # ys) \<longleftrightarrow> x > y" using False by simp
    moreover have "(\<exists>i. i < length (x # xs) \<and> i < length (y # ys) \<and> take i (x # xs) = take i (y # ys)
              \<and> (x # xs) ! i > (y # ys) ! i) \<longleftrightarrow> x > y" (is "?L \<longleftrightarrow> _")
    proof
      assume ?L
      then obtain i where i: "take i (x # xs) = take i (y # ys)" "(x # xs) ! i > (y # ys) ! i" by blast
      with False have "i = 0" by (cases i) auto
      with i show "x > y" by simp
    next
      assume "x > y"
      then have "0 < length (x # xs) \<and> 0 < length (y # ys) \<and> take 0 (x # xs) = take 0 (y # ys)
              \<and> (x # xs) ! 0 > (y # ys) ! 0" by simp
      then show ?L by blast
    qed
    ultimately show ?thesis by blast
  qed
qed simp_all

text \<open>
  Claim C6, amended. \<^verbatim>\<open>operator>\<close> compares the tiebreakers over the common prefix only,
  while \<^verbatim>\<open>operator==\<close> also compares the sizes. For two evaluations whose tiebreaker
  sequences have the same length whenever their ranks agree, exactly one of \<open>a > b\<close>,
  \<open>b > a\<close> and \<open>a == b\<close> holds; \<open>a > b\<close> means a higher rank or, with equal ranks, the
  greater element at the first difference of the tiebreakers; \<open>a == b\<close> means equal ranks
  and equal tiebreakers.
\<close>

theorem comparison_trichotomy:
  assumes "rank a = rank b \<longrightarrow> length (tiebreakers a) = length (tiebreakers b)"
  shows "((gt a b \<and> \<not> gt b a \<and> \<not> eq a b) \<or> (\<not> gt a b \<and> gt b a \<and> \<not> eq a b)
          \<or> (\<not> gt a b \<and> \<not> gt b a \<and> eq a b)) \<and>
         (gt a b \<longleftrightarrow> rank_int (rank a) > rank_int (rank b) \<or>
            (rank a = rank b \<and>
             (\<exists>i. i < length (tiebreakers a) \<and> i < length (tiebreakers b) \<and>
                  take i (tiebreakers a) = take i (tiebreakers b) \<and>
                  tiebreakers a ! i > tiebreakers b ! i))) \<and>
         (eq a b \<longleftrightarrow> rank a = rank b \<and> tiebreakers a = tiebreakers b)"
proof (cases "rank a = rank b")
  case True
  then have len: "length (tiebreakers a) = length (tiebreakers b)" using assms by simp
  have g: "gt a b = gt_loop (tiebreakers a) (tiebreakers b)"
    "gt b a = gt_loop (tiebreakers b) (tiebreakers a)"
    using True by (simp_all add: gt_def)
  have e: "eq a b \<longleftrightarrow> tiebreakers a = tiebreakers b"
    using True len by (simp add: eq_def eq_loop_iff)
  show ?thesis
    using gt_loop_total [OF len] gt_loop_asym [of "tiebreakers a" "tiebreakers b"]
      gt_loop_asym [of "tiebreakers b" "tiebreakers a"]
      gt_loop_irrefl [of "tiebreakers a"]
      gt_loop_first_difference [of "tiebreakers a" "tiebreakers b"] True
    unfolding g e by auto
next
  case False
  then have "rank_int (rank a) \<noteq> rank_int (rank b)" by (simp add: rank_int_inj)
  then show ?thesis using False by (auto simp: gt_def eq_def)
qed

theorem comparison_trichotomy_witness:
  "rank \<lparr>rank = PAIR, tiebreakers = [14, 13, 9, 4]\<rparr> = rank \<lparr>rank = PAIR, tiebreakers = [14, 13, 8, 5]\<rparr> \<and>
   length (tiebreakers \<lparr>rank = PAIR, tiebreakers = [14, 13, 9, 4]\<rparr>) =
     length (tiebreakers \<lparr>rank = PAIR, tiebreakers = [14, 13, 8, 5]\<rparr>) \<and>
   gt \<lparr>rank = PAIR, tiebreakers = [14, 13, 9, 4]\<rparr> \<lparr>rank = PAIR, tiebreakers = [14, 13, 8, 5]\<rparr> \<and>
   \<not> gt \<lparr>rank = PAIR, tiebreakers = [14, 13, 8, 5]\<rparr> \<lparr>rank = PAIR, tiebreakers = [14, 13, 9, 4]\<rparr> \<and>
   \<not> eq \<lparr>rank = PAIR, tiebreakers = [14, 13, 9, 4]\<rparr> \<lparr>rank = PAIR, tiebreakers = [14, 13, 8, 5]\<rparr>"
  using comparison_trichotomy [of "\<lparr>rank = PAIR, tiebreakers = [14, 13, 9, 4]\<rparr>"
      "\<lparr>rank = PAIR, tiebreakers = [14, 13, 8, 5]\<rparr>"]
  by (simp add: gt_def eq_def)

text \<open>
  Without the condition on the lengths the three cases do not cover everything: two pairs
  of aces, one with a kicker recorded and one without, are neither greater nor equal.
\<close>

theorem comparison_trichotomy_counterexample:
  "\<not> (gt \<lparr>rank = PAIR, tiebreakers = [14]\<rparr> \<lparr>rank = PAIR, tiebreakers = [14, 13]\<rparr> \<or>
      gt \<lparr>rank = PAIR, tiebreakers = [14, 13]\<rparr> \<lparr>rank = PAIR, tiebreakers = [14]\<rparr> \<or>
      eq \<lparr>rank = PAIR, tiebreakers = [14]\<rparr> \<lparr>rank = PAIR, tiebreakers = [14, 13]\<rparr>)"
  by (simp add: gt_def eq_def)

section \<open>Counting the cards of a hand\<close>

text \<open>The ranges of values stay folded in the proofs below.\<close>

declare upt_rec_numeral [simp del]

lemma value_int_lt_15: "value_int v < 15"
  using value_int_range [of v] by simp

lemma suit_int_lt_4: "suit_int s < 4"
  using suit_int_range [of s] by simp

lemma valueCounts_foldl:
  "length acc = 15 \<Longrightarrow> v < 15 \<Longrightarrow>
   foldl (\<lambda>vc c. vc[value_int (card_value c) := vc ! value_int (card_value c) + 1]) acc cs ! v
     = acc ! v + rankCount cs v"
proof (induction cs arbitrary: acc)
  case Nil
  then show ?case by (simp add: rankCount_def)
next
  case (Cons c cs)
  let ?k = "value_int (card_value c)"
  let ?acc = "acc[?k := acc ! ?k + 1]"
  have "length ?acc = 15" using Cons.prems by simp
  from Cons.IH [OF this Cons.prems(2)]
  show ?case using Cons.prems value_int_lt_15 [of "card_value c"]
    by (auto simp: rankCount_def nth_list_update)
qed

lemma valueCounts_nth: "v < 15 \<Longrightarrow> valueCounts cs ! v = rankCount cs v"
  unfolding valueCounts_def by (subst valueCounts_foldl) simp_all

lemma suitCounts_foldl:
  "length acc = 4 \<Longrightarrow>
   foldl (\<lambda>sc c. sc[suit_int (suit c) := sc ! suit_int (suit c) + 1]) acc cs ! suit_int s
     = acc ! suit_int s + suitCount cs s"
proof (induction cs arbitrary: acc)
  case Nil
  then show ?case by (simp add: suitCount_def)
next
  case (Cons c cs)
  let ?k = "suit_int (suit c)"
  let ?acc = "acc[?k := acc ! ?k + 1]"
  have "length ?acc = 4" using Cons.prems by simp
  from Cons.IH [OF this]
  show ?case using Cons.prems suit_int_lt_4 [of "suit c"] suit_int_lt_4 [of s]
    by (auto simp: suitCount_def nth_list_update suit_int_inj)
qed

lemma suitCounts_nth: "suitCounts cs ! suit_int s = suitCount cs s"
  unfolding suitCounts_def using suit_int_lt_4 [of s] by (subst suitCounts_foldl) simp_all

lemma rankCount_pos_iff: "rankCount cs v > 0 \<longleftrightarrow> hasRank cs v"
  by (auto simp: rankCount_def hasRank_def list_ex_iff filter_empty_conv)

lemma rankCount_Cons:
  "rankCount (c # cs) v = (if value_int (card_value c) = v then 1 else 0) + rankCount cs v"
  by (simp add: rankCount_def)

lemma sum_indicator_upt:
  "a \<le> k \<Longrightarrow> k < b \<Longrightarrow> sum_list (map (\<lambda>v. if k = v then 1 else 0) [a..<b]) = (1::nat)"
proof (induction b)
  case 0
  then show ?case by simp
next
  case (Suc b)
  show ?case
  proof (cases "k = b")
    case True
    then have "sum_list (map (\<lambda>v. if k = v then 1 else 0) [a..<b]) = (0::nat)"
      by (simp add: sum_list_eq_0_iff)
    with True Suc.prems show ?thesis by simp
  next
    case False
    with Suc show ?thesis by simp
  qed
qed

lemma rankCount_sum: "sum_list (map (rankCount cs) [2..<15]) = length cs"
proof (induction cs)
  case Nil
  then show ?case by (simp add: rankCount_def)
next
  case (Cons c cs)
  let ?k = "value_int (card_value c)"
  have "sum_list (map (rankCount (c # cs)) [2..<15])
      = sum_list (map (\<lambda>v. (if ?k = v then 1 else 0) + rankCount cs v) [2..<15])"
    by (intro arg_cong [where f = sum_list] map_cong refl) (simp add: rankCount_Cons)
  also have "\<dots> = sum_list (map (\<lambda>v. if ?k = v then 1 else 0) [2..<15])
                 + sum_list (map (rankCount cs) [2..<15])"
    by (rule sum_list_addf)
  also have "\<dots> = 1 + length cs"
    using sum_indicator_upt [of 2 ?k 15] value_int_range [of "card_value c"] Cons.IH by simp
  finally show ?case by simp
qed

lemma card_suit_UNIV: "(UNIV :: Suit set) = set all_suits"
proof -
  have "s \<in> set all_suits" for s by (cases s) (simp_all add: all_suits_def)
  then show ?thesis by auto
qed

lemma rankCount_le_4:
  assumes "distinct cs"
  shows "rankCount cs v \<le> 4"
proof -
  let ?ys = "filter (\<lambda>c. value_int (card_value c) = v) cs"
  have d: "distinct ?ys" using assms by simp
  have "inj_on suit (set ?ys)"
    by (rule inj_onI) (auto simp: value_int_inj intro: Card.expand)
  with d have "distinct (map suit ?ys)" by (simp add: distinct_map)
  then have "length (map suit ?ys) = card (set (map suit ?ys))"
    by (metis distinct_card)
  also have "\<dots> \<le> card (set all_suits)"
    by (intro card_mono finite_set) (simp add: card_suit_UNIV [symmetric])
  also have "\<dots> \<le> 4" by (simp add: all_suits_def)
  finally show ?thesis by (simp add: rankCount_def)
qed

lemma classify_sum:
  "(\<And>x. x \<in> set xs \<Longrightarrow> f x \<le> (4::nat)) \<Longrightarrow>
   sum_list (map f xs) =
     4 * length (filter (\<lambda>x. f x = 4) xs) + 3 * length (filter (\<lambda>x. f x = 3) xs)
     + 2 * length (filter (\<lambda>x. f x = 2) xs) + length (filter (\<lambda>x. f x = 1) xs)"
proof (induction xs)
  case Nil
  then show ?case by simp
next
  case (Cons x xs)
  have "f x \<le> 4" using Cons.prems by simp
  then have "f x = 0 \<or> f x = 1 \<or> f x = 2 \<or> f x = 3 \<or> f x = 4" by arith
  moreover have "sum_list (map f xs) =
     4 * length (filter (\<lambda>x. f x = 4) xs) + 3 * length (filter (\<lambda>x. f x = 3) xs)
     + 2 * length (filter (\<lambda>x. f x = 2) xs) + length (filter (\<lambda>x. f x = 1) xs)"
    using Cons by simp
  ultimately show ?case by auto
qed

lemma length_sort_desc: "length (sort_desc xs) = length xs"
  by (simp add: sort_desc_def)

lemma set_sort_desc: "set (sort_desc xs) = set xs"
  by (simp add: sort_desc_def)

lemma group_sizes:
  assumes "distinct cs"
  shows "4 * length (quadsOf (valueCounts cs)) + 3 * length (tripsOf (valueCounts cs))
       + 2 * length (pairsOf (valueCounts cs)) + length (highCardsOf (valueCounts cs)) = length cs"
proof -
  have nth: "valueCounts cs ! i = rankCount cs i" if "i \<in> set [2..<15]" for i
    using that valueCounts_nth [of i cs] by auto
  have eq: "filter (\<lambda>i. valueCounts cs ! i = n) [2..<15] = filter (\<lambda>i. rankCount cs i = n) [2..<15]" for n
    by (rule filter_cong) (simp_all only: nth)
  have hc: "length (highCardsOf (valueCounts cs)) = length (filter (\<lambda>i. rankCount cs i = 1) [2..<15])"
    unfolding highCardsOf_def by (simp only: rev_filter [symmetric] length_rev eq)
  have "sum_list (map (rankCount cs) [2..<15]) =
     4 * length (filter (\<lambda>x. rankCount cs x = 4) [2..<15])
     + 3 * length (filter (\<lambda>x. rankCount cs x = 3) [2..<15])
     + 2 * length (filter (\<lambda>x. rankCount cs x = 2) [2..<15])
     + length (filter (\<lambda>x. rankCount cs x = 1) [2..<15])"
    by (rule classify_sum) (rule rankCount_le_4 [OF assms])
  then show ?thesis
    by (simp only: quadsOf_def tripsOf_def pairsOf_def length_sort_desc eq hc rankCount_sum)
qed

section \<open>The flush cards and the definedness of the evaluator\<close>

lemma find_rev_upt_None:
  "find P (rev [a..<b]) = None \<longleftrightarrow> (\<forall>j. a \<le> j \<and> j < b \<longrightarrow> \<not> P j)"
  by (auto simp: find_None_iff)

lemma find_rev_upt_Some:
  "find P (rev [a..<b]) = Some i \<Longrightarrow> a \<le> i \<and> i < b \<and> P i \<and> (\<forall>j. i < j \<and> j < b \<longrightarrow> \<not> P j)"
proof (induction b)
  case 0
  then show ?case by simp
next
  case (Suc b)
  show ?case
  proof (cases "a \<le> b")
    case True
    then have r: "rev [a..<Suc b] = b # rev [a..<b]" by simp
    show ?thesis
    proof (cases "P b")
      case True
      with Suc.prems r have "i = b" by simp
      with True \<open>a \<le> b\<close> show ?thesis by auto
    next
      case False
      with Suc.prems r have "find P (rev [a..<b]) = Some i" by simp
      from Suc.IH [OF this] False show ?thesis
        by (auto simp: less_Suc_eq)
    qed
  next
    case False
    with Suc.prems show ?thesis by simp
  qed
qed

lemma length_sortCards: "length (sortCardsByValueDesc cs) = length cs"
  by (simp add: sortCardsByValueDesc_def)

lemma set_sortCards: "set (sortCardsByValueDesc cs) = set cs"
  by (simp add: sortCardsByValueDesc_def)

lemma distinct_sortCards: "distinct (sortCardsByValueDesc cs) = distinct cs"
  by (simp add: sortCardsByValueDesc_def)

lemma findFlush_True:
  "findFlush (suitCounts cs) = (True, s) \<Longrightarrow> suitCount cs s \<ge> 5"
  unfolding findFlush_def
  by (auto simp: suitCounts_nth find_Some_iff split: option.splits)

lemma findFlush_False:
  "findFlush (suitCounts cs) = (False, s) \<Longrightarrow> s = CLUBS"
  unfolding findFlush_def by (auto split: option.splits)

lemma length_flushCardsOf:
  "findFlush (suitCounts cs) = (hasFlush, s) \<Longrightarrow> hasFlush \<Longrightarrow>
   length (flushCardsOf hasFlush s cs) \<ge> 5"
  using findFlush_True [of cs s]
  by (simp add: flushCardsOf_def length_sortCards suitCount_def)

lemma set_flushCardsOf:
  "set (flushCardsOf True s cs) = {c \<in> set cs. suit c = s}"
  by (auto simp: flushCardsOf_def set_sortCards)

lemma distinct_flush_values:
  assumes "distinct cs"
  shows "distinct (map (\<lambda>c. value_int (card_value c)) (flushCardsOf hasFlush s cs))"
proof (cases hasFlush)
  case True
  have "inj_on (\<lambda>c. value_int (card_value c)) {c \<in> set cs. suit c = s}"
    by (rule inj_onI) (auto simp: value_int_inj intro: Card.expand)
  then show ?thesis using assms True
    by (simp add: distinct_map flushCardsOf_def distinct_sortCards set_sortCards)
next
  case False
  then show ?thesis by (simp add: flushCardsOf_def)
qed

lemma distinct_sort_desc: "distinct (sort_desc xs) = distinct xs"
  by (simp add: sort_desc_def)

lemma flushValues_length:
  assumes "distinct cs"
  shows "length (remdups_adj (sort_desc (map (\<lambda>c. value_int (card_value c)) (flushCardsOf hasFlush s cs))))
         = length (flushCardsOf hasFlush s cs)"
proof -
  have "distinct (sort_desc (map (\<lambda>c. value_int (card_value c)) (flushCardsOf hasFlush s cs)))"
    using distinct_flush_values [OF assms] by (simp add: distinct_sort_desc)
  then show ?thesis by (simp add: remdups_adj_distinct length_sort_desc)
qed

lemma detectStraightFlush_defined:
  assumes "distinct cs"
  shows "\<exists>res. detectStraightFlush hasFlush (flushCardsOf hasFlush s cs) hasStraight hc = Inr res"
  using flushValues_length [OF assms, of hasFlush s]
  by (auto simp: detectStraightFlush_def Let_def split: option.splits)

lemma evaluateComplete_defined:
  assumes "distinct cs"
  shows "\<exists>e. evaluateComplete cs = Inr e"
proof -
  obtain hasFlush s where f: "findFlush (suitCounts cs) = (hasFlush, s)" by (cases "findFlush (suitCounts cs)")
  obtain hs hc where st: "detectStraight (valueCounts cs) = (hs, hc)" by (cases "detectStraight (valueCounts cs)")
  obtain res where "detectStraightFlush hasFlush (flushCardsOf hasFlush s cs) hs hc = Inr res"
    using detectStraightFlush_defined [OF assms] by blast
  then show ?thesis
    by (cases res) (simp add: evaluateComplete_def f st)
qed

section \<open>The number of tiebreakers\<close>

lemma length_filter_mono:
  "(\<And>x. x \<in> set xs \<Longrightarrow> P x \<Longrightarrow> Q x) \<Longrightarrow> length (filter P xs) \<le> length (filter Q xs)"
  by (induction xs) auto

lemma highCards_le_present:
  "length (highCardsOf vc) \<le> length (filter (\<lambda>i. vc ! i > 0) (rev [2..<15]))"
  unfolding highCardsOf_def by (rule length_filter_mono) simp

lemma sum_list_single:
  assumes "\<And>x. x \<in> set xs \<Longrightarrow> x \<noteq> q \<Longrightarrow> f x = (0::nat)" "distinct xs"
  shows "sum_list (map f xs) \<le> f q"
  using assms
proof (induction xs)
  case Nil
  then show ?case by simp
next
  case (Cons a xs)
  show ?case
  proof (cases "a = q")
    case True
    with Cons.prems have "\<And>x. x \<in> set xs \<Longrightarrow> f x = 0" by auto
    then have "sum_list (map f xs) = 0" by (simp add: sum_list_eq_0_iff)
    with True show ?thesis by simp
  next
    case False
    with Cons show ?thesis by simp
  qed
qed

lemma quads_kicker:
  assumes "length cs = 7" "q \<in> set (quadsOf (valueCounts cs))"
  shows "find (\<lambda>i. valueCounts cs ! i > 0 \<and> i \<noteq> q) (rev [2..<15]) \<noteq> None"
proof
  assume "find (\<lambda>i. valueCounts cs ! i > 0 \<and> i \<noteq> q) (rev [2..<15]) = None"
  then have none: "\<And>j. 2 \<le> j \<Longrightarrow> j < 15 \<Longrightarrow> j \<noteq> q \<Longrightarrow> rankCount cs j = 0"
    unfolding find_rev_upt_None using valueCounts_nth by auto
  have q: "2 \<le> q" "q < 15" "rankCount cs q = 4"
    using assms(2) valueCounts_nth [of q cs]
    by (auto simp: quadsOf_def set_sort_desc)
  have "sum_list (map (rankCount cs) [2..<15]) \<le> rankCount cs q"
    by (rule sum_list_single) (use none in auto)
  with q assms(1) show False by (simp add: rankCount_sum)
qed

lemma resolve_tiebreakers_length:
  assumes sizes: "4 * length (quadsOf vc) + 3 * length (tripsOf vc) + 2 * length (pairsOf vc)
                 + length (highCardsOf vc) = 7"
    and kicker: "quadsOf vc \<noteq> [] \<Longrightarrow>
                 find (\<lambda>i. vc ! i > 0 \<and> i \<noteq> quadsOf vc ! 0) (rev [2..<15]) \<noteq> None"
    and flush: "hasFlush \<Longrightarrow> length flushCards \<ge> 5"
    and singles: "length (highCardsOf vc) \<le> length (filter (\<lambda>i. vc ! i > 0) (rev [2..<15]))"
  shows "length (tiebreakers (resolve vc hasFlush flushCards hs hc hsf sfc))
         = tiebreakerCount (rank (resolve vc hasFlush flushCards hs hc hsf sfc))"
proof -
  let ?q = "length (quadsOf vc)" and ?t = "length (tripsOf vc)" and ?p = "length (pairsOf vc)"
  let ?h = "length (highCardsOf vc)"
  consider (royal) "hsf \<and> sfc = 14"
    | (sf) "\<not> (hsf \<and> sfc = 14)" "hsf"
    | (quads) "\<not> hsf" "quadsOf vc \<noteq> []"
    | (full) "\<not> hsf" "quadsOf vc = []" "tripsOf vc \<noteq> [] \<and> (pairsOf vc \<noteq> [] \<or> length (tripsOf vc) > 1)"
    | (flush) "\<not> hsf" "quadsOf vc = []"
        "\<not> (tripsOf vc \<noteq> [] \<and> (pairsOf vc \<noteq> [] \<or> length (tripsOf vc) > 1))" "hasFlush"
    | (straight) "\<not> hsf" "quadsOf vc = []"
        "\<not> (tripsOf vc \<noteq> [] \<and> (pairsOf vc \<noteq> [] \<or> length (tripsOf vc) > 1))" "\<not> hasFlush" "hs"
    | (rest) "\<not> hsf" "quadsOf vc = []"
        "\<not> (tripsOf vc \<noteq> [] \<and> (pairsOf vc \<noteq> [] \<or> length (tripsOf vc) > 1))" "\<not> hasFlush" "\<not> hs"
    by blast
  then show ?thesis
  proof cases
    case royal
    then show ?thesis by (simp add: resolve_def)
  next
    case sf
    then show ?thesis by (simp add: resolve_def Let_def)
  next
    case quads
    with kicker obtain k where
      "find (\<lambda>i. vc ! i > 0 \<and> i \<noteq> quadsOf vc ! 0) (rev [2..<15]) = Some k" by blast
    with quads show ?thesis by (simp add: resolve_def Let_def)
  next
    case full
    then show ?thesis by (simp add: resolve_def Let_def)
  next
    case flush
    with assms(3) show ?thesis by (simp add: resolve_def Let_def)
  next
    case straight
    then show ?thesis by (simp add: resolve_def Let_def)
  next
    case rest
    show ?thesis
    proof (cases "tripsOf vc = []")
      case False
      with rest have "pairsOf vc = []" "?t = 1" by (auto simp: Suc_le_eq) (cases "tripsOf vc"; simp)+
      with sizes rest have "?h = 4" by simp
      with rest False \<open>pairsOf vc = []\<close> show ?thesis by (simp add: resolve_def Let_def)
    next
      case True
      note t = this
      show ?thesis
      proof (cases "length (pairsOf vc) \<ge> 2")
        case True
        with sizes rest t have "?h \<ge> 1" by (simp; arith)
        with rest t True show ?thesis by (simp add: resolve_def Let_def)
      next
        case False
        note p2 = this
        show ?thesis
        proof (cases "length (pairsOf vc) = 1")
          case True
          with sizes rest t have "?h = 5" by simp
          with rest t True show ?thesis by (simp add: resolve_def Let_def)
        next
          case False
          with p2 have "?p = 0" by arith
          with sizes rest t have "?h = 7" by simp
          with singles have "length (filter (\<lambda>i. vc ! i > 0) (rev [2..<15])) \<ge> 5" by simp
          with rest t \<open>?p = 0\<close> show ?thesis by (simp add: resolve_def Let_def)
        qed
      qed
    qed
  qed
qed

lemma evaluateComplete_resolve:
  assumes "distinct cs"
  obtains hasFlush s hs hc hsf sfc where
    "findFlush (suitCounts cs) = (hasFlush, s)"
    "detectStraight (valueCounts cs) = (hs, hc)"
    "detectStraightFlush hasFlush (flushCardsOf hasFlush s cs) hs hc = Inr (hsf, sfc)"
    "evaluateComplete cs =
       Inr (resolve (valueCounts cs) hasFlush (flushCardsOf hasFlush s cs) hs hc hsf sfc)"
proof -
  obtain hasFlush s where f: "findFlush (suitCounts cs) = (hasFlush, s)"
    by (cases "findFlush (suitCounts cs)")
  obtain hs hc where st: "detectStraight (valueCounts cs) = (hs, hc)"
    by (cases "detectStraight (valueCounts cs)")
  obtain res where "detectStraightFlush hasFlush (flushCardsOf hasFlush s cs) hs hc = Inr res"
    using detectStraightFlush_defined [OF assms] by blast
  then obtain hsf sfc where
    sf: "detectStraightFlush hasFlush (flushCardsOf hasFlush s cs) hs hc = Inr (hsf, sfc)"
    by (cases res) auto
  then have "evaluateComplete cs =
       Inr (resolve (valueCounts cs) hasFlush (flushCardsOf hasFlush s cs) hs hc hsf sfc)"
    by (simp add: evaluateComplete_def f st)
  with f st sf show ?thesis using that by blast
qed

lemma evaluateComplete_length:
  assumes "hand7 cs"
  shows "\<exists>e. evaluateComplete cs = Inr e \<and> length (tiebreakers e) = tiebreakerCount (rank e)"
proof -
  from assms have d: "distinct cs" and l: "length cs = 7" by (simp_all add: hand7_def)
  from d obtain hasFlush s hs hc hsf sfc where
    f: "findFlush (suitCounts cs) = (hasFlush, s)" and
    e: "evaluateComplete cs =
       Inr (resolve (valueCounts cs) hasFlush (flushCardsOf hasFlush s cs) hs hc hsf sfc)"
    by (rule evaluateComplete_resolve)
  have "length (tiebreakers (resolve (valueCounts cs) hasFlush (flushCardsOf hasFlush s cs) hs hc hsf sfc))
      = tiebreakerCount (rank (resolve (valueCounts cs) hasFlush (flushCardsOf hasFlush s cs) hs hc hsf sfc))"
  proof (rule resolve_tiebreakers_length)
    show "4 * length (quadsOf (valueCounts cs)) + 3 * length (tripsOf (valueCounts cs))
        + 2 * length (pairsOf (valueCounts cs)) + length (highCardsOf (valueCounts cs)) = 7"
      using group_sizes [OF d] l by simp
  next
    assume "quadsOf (valueCounts cs) \<noteq> []"
    then have "quadsOf (valueCounts cs) ! 0 \<in> set (quadsOf (valueCounts cs))" by simp
    then show "find (\<lambda>i. valueCounts cs ! i > 0 \<and> i \<noteq> quadsOf (valueCounts cs) ! 0) (rev [2..<15]) \<noteq> None"
      by (rule quads_kicker [OF l])
  next
    assume hasFlush
    then show "5 \<le> length (flushCardsOf hasFlush s cs)" using length_flushCardsOf [OF f] by simp
  next
    show "length (highCardsOf (valueCounts cs))
        \<le> length (filter (\<lambda>i. valueCounts cs ! i > 0) (rev [2..<15]))"
      by (rule highCards_le_present)
  qed
  with e show ?thesis by simp
qed

lemma tiebreakerCount_pos: "tiebreakerCount r > 0"
  by (cases r) simp_all

text \<open>
  Claim C10, amended. For 7-card hands (seven pairwise different cards, what a deck can
  deal) \<open>evaluateComplete\<close> returns
  an evaluation whose tiebreaker list is not empty and has the length that goes with its
  rank: 1 for ROYAL_FLUSH, STRAIGHT_FLUSH and STRAIGHT, 2 for FOUR_OF_A_KIND and
  FULL_HOUSE, 3 for THREE_OF_A_KIND and TWO_PAIR, 4 for PAIR, 5 for FLUSH and HIGH_CARD.
  Two evaluations of the same rank therefore have tiebreaker lists of the same length.
\<close>

theorem tiebreaker_count_by_rank:
  assumes "hand7 a" and "hand7 b"
  shows "\<exists>ea eb. evaluateComplete a = Inr ea \<and> evaluateComplete b = Inr eb \<and>
           tiebreakers ea \<noteq> [] \<and>
           length (tiebreakers ea) = tiebreakerCount (rank ea) \<and>
           (rank ea = rank eb \<longrightarrow> length (tiebreakers ea) = length (tiebreakers eb))"
proof -
  obtain ea where ea: "evaluateComplete a = Inr ea" "length (tiebreakers ea) = tiebreakerCount (rank ea)"
    using evaluateComplete_length [OF assms(1)] by blast
  obtain eb where eb: "evaluateComplete b = Inr eb" "length (tiebreakers eb) = tiebreakerCount (rank eb)"
    using evaluateComplete_length [OF assms(2)] by blast
  have "tiebreakers ea \<noteq> []" using ea(2) tiebreakerCount_pos [of "rank ea"] by auto
  with ea eb show ?thesis by auto
qed

theorem tiebreaker_count_by_rank_witness:
  "hand7 [Card CLUBS ACE, Card DIAMONDS ACE, Card CLUBS KING, Card DIAMONDS KING,
          Card CLUBS QUEEN, Card DIAMONDS NINE, Card HEARTS TWO] \<and>
   hand7 [Card SPADES FIVE, Card DIAMONDS FIVE, Card CLUBS FOUR, Card DIAMONDS FOUR,
          Card CLUBS QUEEN, Card DIAMONDS NINE, Card HEARTS TWO] \<and>
   (\<exists>ea eb.
      evaluateComplete [Card CLUBS ACE, Card DIAMONDS ACE, Card CLUBS KING, Card DIAMONDS KING,
          Card CLUBS QUEEN, Card DIAMONDS NINE, Card HEARTS TWO] = Inr ea \<and>
      evaluateComplete [Card SPADES FIVE, Card DIAMONDS FIVE, Card CLUBS FOUR, Card DIAMONDS FOUR,
          Card CLUBS QUEEN, Card DIAMONDS NINE, Card HEARTS TWO] = Inr eb \<and>
      tiebreakers ea \<noteq> [] \<and>
      length (tiebreakers ea) = tiebreakerCount (rank ea) \<and>
      (rank ea = rank eb \<longrightarrow> length (tiebreakers ea) = length (tiebreakers eb)))"
proof -
  have a: "hand7 [Card CLUBS ACE, Card DIAMONDS ACE, Card CLUBS KING, Card DIAMONDS KING,
          Card CLUBS QUEEN, Card DIAMONDS NINE, Card HEARTS TWO]"
    by (simp add: hand7_def)
  have b: "hand7 [Card SPADES FIVE, Card DIAMONDS FIVE, Card CLUBS FOUR, Card DIAMONDS FOUR,
          Card CLUBS QUEEN, Card DIAMONDS NINE, Card HEARTS TWO]"
    by (simp add: hand7_def)
  from a b tiebreaker_count_by_rank [OF a b] show ?thesis by blast
qed

text \<open>
  For seven cards that are not pairwise different the claim fails. A value held five
  times is in none of the groups of four, three, two or one: with the ace of spades and
  the ace of hearts entered twice the rank is HIGH_CARD with three tiebreakers only,
  while a hand of seven different cards of rank HIGH_CARD has five.
\<close>

theorem tiebreaker_count_by_rank_counterexample:
  "length [Card SPADES ACE, Card HEARTS ACE, Card SPADES ACE, Card HEARTS ACE,
           Card DIAMONDS ACE, Card CLUBS NINE, Card DIAMONDS THREE] = 7 \<and>
   evaluateComplete [Card SPADES ACE, Card HEARTS ACE, Card SPADES ACE, Card HEARTS ACE,
           Card DIAMONDS ACE, Card CLUBS NINE, Card DIAMONDS THREE]
     = Inr \<lparr>rank = HIGH_CARD, tiebreakers = [14, 9, 3]\<rparr> \<and>
   length (tiebreakers \<lparr>rank = HIGH_CARD, tiebreakers = [14, 9, 3]\<rparr>)
     \<noteq> tiebreakerCount (rank \<lparr>rank = HIGH_CARD, tiebreakers = [14, 9, 3]\<rparr>) \<and>
   evaluateComplete [Card SPADES KING, Card HEARTS JACK, Card CLUBS NINE, Card DIAMONDS SEVEN,
           Card SPADES FIVE, Card HEARTS THREE, Card CLUBS TWO]
     = Inr \<lparr>rank = HIGH_CARD, tiebreakers = [13, 11, 9, 7, 5]\<rparr>"
proof -
  have a: "evaluateComplete [Card SPADES ACE, Card HEARTS ACE, Card SPADES ACE, Card HEARTS ACE,
           Card DIAMONDS ACE, Card CLUBS NINE, Card DIAMONDS THREE]
     = Inr \<lparr>rank = HIGH_CARD, tiebreakers = [14, 9, 3]\<rparr>"
    by code_simp
  have b: "evaluateComplete [Card SPADES KING, Card HEARTS JACK, Card CLUBS NINE,
           Card DIAMONDS SEVEN, Card SPADES FIVE, Card HEARTS THREE, Card CLUBS TWO]
     = Inr \<lparr>rank = HIGH_CARD, tiebreakers = [13, 11, 9, 7, 5]\<rparr>"
    by code_simp
  have c: "length (tiebreakers \<lparr>rank = HIGH_CARD, tiebreakers = [14, 9, 3]\<rparr>)
     \<noteq> tiebreakerCount (rank \<lparr>rank = HIGH_CARD, tiebreakers = [14, 9, 3]\<rparr>)"
    by simp
  have d: "length [Card SPADES ACE, Card HEARTS ACE, Card SPADES ACE, Card HEARTS ACE,
           Card DIAMONDS ACE, Card CLUBS NINE, Card DIAMONDS THREE] = 7"
    by simp
  from d a c b show ?thesis by (intro conjI)
qed

section \<open>The straight check\<close>

lemma straightTo_plus4:
  "straightTo cs (i + 4) \<longleftrightarrow>
     hasRank cs i \<and> hasRank cs (i + 1) \<and> hasRank cs (i + 2) \<and> hasRank cs (i + 3) \<and> hasRank cs (i + 4)"
proof -
  have "[i + 4 - 4..<i + 4 + 1] = [i, i + 1, i + 2, i + 3, i + 4]"
    by (simp add: upt_conv_Cons numeral_eq_Suc)
  then show ?thesis by (simp add: straightTo_def)
qed

lemma window_straightTo:
  assumes "i \<le> 10"
  shows "window (valueCounts cs) i \<longleftrightarrow> straightTo cs (i + 4)"
  using assms by (simp add: straightTo_plus4 window_def valueCounts_nth rankCount_pos_iff)

lemma wheel_counts:
  "wheel cs \<longleftrightarrow> valueCounts cs ! 14 > 0 \<and> valueCounts cs ! 2 > 0 \<and> valueCounts cs ! 3 > 0
      \<and> valueCounts cs ! 4 > 0 \<and> valueCounts cs ! 5 > 0"
  by (simp add: wheel_def valueCounts_nth rankCount_pos_iff)

lemma detectStraight_regular:
  assumes "detectStraight (valueCounts cs) = (hs, hc)"
    and "6 \<le> h" "h \<le> 14" "straightTo cs h"
  shows "hs \<and> 6 \<le> hc \<and> hc \<le> 14 \<and> straightTo cs hc \<and> h \<le> hc"
proof (cases "find (window (valueCounts cs)) (rev [2..<11])")
  case None
  have b: "2 \<le> h - 4 \<and> h - 4 < 11" using assms(2,3) by arith
  with None have nw: "\<not> window (valueCounts cs) (h - 4)"
    unfolding find_rev_upt_None by blast
  have h4: "h - 4 + 4 = h" using assms(2) by arith
  have "window (valueCounts cs) (h - 4) \<longleftrightarrow> straightTo cs (h - 4 + 4)"
    by (rule window_straightTo) (use b in arith)
  with nw assms(4) show ?thesis unfolding h4 by blast
next
  case (Some i)
  from find_rev_upt_Some [OF Some]
  have i: "2 \<le> i" "i < 11" "window (valueCounts cs) i"
    and top: "\<And>j. i < j \<Longrightarrow> j < 11 \<Longrightarrow> \<not> window (valueCounts cs) j" by auto
  from Some assms(1) have r: "hs" "hc = i + 4" by (simp_all add: detectStraight_def)
  have "straightTo cs (i + 4)" using i window_straightTo [of i cs] by simp
  moreover have "h \<le> i + 4"
  proof (rule ccontr)
    assume "\<not> h \<le> i + 4"
    then have lt: "i < h - 4" "h - 4 < 11" using assms(3) by arith+
    have h4: "h - 4 + 4 = h" using assms(2) by arith
    have "window (valueCounts cs) (h - 4) \<longleftrightarrow> straightTo cs (h - 4 + 4)"
      by (rule window_straightTo) (use lt in arith)
    with top [OF lt] assms(4) show False unfolding h4 by blast
  qed
  ultimately show ?thesis using r i by simp
qed

lemma detectStraight_wheel_only:
  assumes "detectStraight (valueCounts cs) = (hs, hc)"
    and "\<not> (\<exists>h. 6 \<le> h \<and> h \<le> 14 \<and> straightTo cs h)"
  shows "hs = wheel cs \<and> (wheel cs \<longrightarrow> hc = 5)"
proof (cases "find (window (valueCounts cs)) (rev [2..<11])")
  case None
  with assms(1) show ?thesis
    by (auto simp: detectStraight_def wheel_counts split: if_splits)
next
  case (Some i)
  from find_rev_upt_Some [OF Some]
  have i: "2 \<le> i" "i < 11" "window (valueCounts cs) i" by auto
  then have "straightTo cs (i + 4)" using window_straightTo [of i cs] by simp
  moreover have "6 \<le> i + 4 \<and> i + 4 \<le> 14" using i by arith
  ultimately show ?thesis using assms(2) by blast
qed

lemma resolve_STRAIGHT:
  "rank (resolve vc hasFlush flushCards hs hc hsf sfc) = STRAIGHT \<Longrightarrow>
   tiebreakers (resolve vc hasFlush flushCards hs hc hsf sfc) = [int hc]"
  by (auto simp: resolve_def Let_def split: if_splits)

text \<open>
  Claim C3. For a 7-card hand, the straight check of \<open>evaluateComplete\<close> reports a
  straight exactly when the hand holds the wheel or five consecutive values with a high
  card from 6 to 14. If such five consecutive values exist, the reported high card is the
  highest of them, from 6 to 14. The wheel A-2-3-4-5 is reported with the high card 5,
  and only when no straight with a high card from 6 to 14 exists. When the hand resolves
  to STRAIGHT, the reported high card is its only tiebreaker.
\<close>

theorem straight_detection_highest:
  assumes "hand7 cs" and "detectStraight (valueCounts cs) = (hasStraight, straightHighCard)"
  shows "(hasStraight \<longleftrightarrow> wheel cs \<or> (\<exists>h. 6 \<le> h \<and> h \<le> 14 \<and> straightTo cs h)) \<and>
         ((\<exists>h. 6 \<le> h \<and> h \<le> 14 \<and> straightTo cs h) \<longrightarrow>
            6 \<le> straightHighCard \<and> straightHighCard \<le> 14 \<and> straightTo cs straightHighCard \<and>
            (\<forall>h. 6 \<le> h \<and> h \<le> 14 \<and> straightTo cs h \<longrightarrow> h \<le> straightHighCard)) \<and>
         (wheel cs \<and> \<not> (\<exists>h. 6 \<le> h \<and> h \<le> 14 \<and> straightTo cs h) \<longrightarrow> straightHighCard = 5) \<and>
         (\<exists>e. evaluateComplete cs = Inr e \<and>
              (rank e = STRAIGHT \<longrightarrow> tiebreakers e = [int straightHighCard]))"
proof -
  from assms(1) have d: "distinct cs" by (simp add: hand7_def)
  from d obtain hasFlush s hs hc hsf sfc where
    st: "detectStraight (valueCounts cs) = (hs, hc)" and
    e: "evaluateComplete cs =
       Inr (resolve (valueCounts cs) hasFlush (flushCardsOf hasFlush s cs) hs hc hsf sfc)"
    by (rule evaluateComplete_resolve)
  from st assms(2) have "hc = straightHighCard" by simp
  with e resolve_STRAIGHT have last: "\<exists>e. evaluateComplete cs = Inr e \<and>
              (rank e = STRAIGHT \<longrightarrow> tiebreakers e = [int straightHighCard])"
    by blast
  show ?thesis
  proof (cases "\<exists>h. 6 \<le> h \<and> h \<le> 14 \<and> straightTo cs h")
    case True
    then obtain h0 where h0: "6 \<le> h0" "h0 \<le> 14" "straightTo cs h0" by blast
    from detectStraight_regular [OF assms(2) h0]
    have "hasStraight" "6 \<le> straightHighCard" "straightHighCard \<le> 14" "straightTo cs straightHighCard"
      by simp_all
    moreover have "\<forall>h. 6 \<le> h \<and> h \<le> 14 \<and> straightTo cs h \<longrightarrow> h \<le> straightHighCard"
      using detectStraight_regular [OF assms(2)] by blast
    ultimately show ?thesis using True last by blast
  next
    case False
    from detectStraight_wheel_only [OF assms(2) False] False last show ?thesis by blast
  qed
qed

theorem straight_detection_highest_witness:
  "hand7 [Card SPADES ACE, Card HEARTS TWO, Card SPADES THREE, Card SPADES FOUR,
          Card SPADES FIVE, Card CLUBS SIX, Card DIAMONDS JACK] \<and>
   detectStraight (valueCounts [Card SPADES ACE, Card HEARTS TWO, Card SPADES THREE,
          Card SPADES FOUR, Card SPADES FIVE, Card CLUBS SIX, Card DIAMONDS JACK]) = (True, 6) \<and>
   wheel [Card SPADES ACE, Card HEARTS TWO, Card SPADES THREE, Card SPADES FOUR,
          Card SPADES FIVE, Card CLUBS SIX, Card DIAMONDS JACK] \<and>
   (\<exists>e. evaluateComplete [Card SPADES ACE, Card HEARTS TWO, Card SPADES THREE, Card SPADES FOUR,
          Card SPADES FIVE, Card CLUBS SIX, Card DIAMONDS JACK] = Inr e \<and>
        rank e = STRAIGHT \<and> tiebreakers e = [6])"
proof -
  let ?cs = "[Card SPADES ACE, Card HEARTS TWO, Card SPADES THREE, Card SPADES FOUR,
          Card SPADES FIVE, Card CLUBS SIX, Card DIAMONDS JACK]"
  have a: "hand7 ?cs" by (simp add: hand7_def)
  have b: "detectStraight (valueCounts ?cs) = (True, 6)" by code_simp
  have c: "wheel ?cs" by code_simp
  have r: "evaluateComplete ?cs = Inr \<lparr>rank = STRAIGHT, tiebreakers = [6]\<rparr>" by code_simp
  note t = straight_detection_highest [OF a b]
  from t obtain e where e: "evaluateComplete ?cs = Inr e"
    "rank e = STRAIGHT \<longrightarrow> tiebreakers e = [int 6]"
    by (elim conjE exE)
  from e(1) r have "e = \<lparr>rank = STRAIGHT, tiebreakers = [6]\<rparr>" by (simp only: sum.inject)
  then have "rank e = STRAIGHT" by simp
  with e have "\<exists>e. evaluateComplete ?cs = Inr e \<and> rank e = STRAIGHT \<and> tiebreakers e = [6]"
    by (intro exI [of _ e]) simp
  with a b c show ?thesis by (intro conjI)
qed

text \<open>The wheel alone: the high card is 5, not 14.\<close>

lemma wheel_example:
  "evaluateComplete [Card SPADES ACE, Card HEARTS TWO, Card SPADES THREE, Card SPADES FOUR,
          Card SPADES FIVE, Card CLUBS NINE, Card DIAMONDS JACK]
     = Inr \<lparr>rank = STRAIGHT, tiebreakers = [5]\<rparr>"
  by code_simp

section \<open>The straight-flush check\<close>

lemma strict_remdups_adj:
  "sorted xs \<Longrightarrow> sorted_wrt (<) (remdups_adj (xs :: nat list))"
proof (induction xs rule: remdups_adj.induct)
  case (3 x y xs)
  show ?case
  proof (cases "x = y")
    case True
    with 3 show ?thesis by simp
  next
    case False
    from "3.prems" have "x \<le> y" "\<forall>z\<in>set xs. y \<le> z" by auto
    with False have "\<forall>z\<in>set (y # xs). x < z" by auto
    with False 3 show ?thesis by simp
  qed
qed simp_all

lemma flushValues_strict:
  "sorted_wrt (\<lambda>x y. x > y) (remdups_adj (sort_desc xs))"
proof -
  have "sorted_wrt (<) (remdups_adj (sort xs))" by (rule strict_remdups_adj) simp
  then show ?thesis by (simp add: sort_desc_def sorted_wrt_rev)
qed

lemma find_Some_mem: "find P xs = Some x \<Longrightarrow> x \<in> set xs \<and> P x"
  by (induction xs) (auto split: if_splits)

lemma set_flushValues:
  "set (remdups_adj (sort_desc (map (\<lambda>c. value_int (card_value c)) (flushCardsOf True s cs))))
     = {v. hasCard cs s v}"
  by (auto simp: set_sort_desc set_flushCardsOf hasCard_def list_ex_iff)

lemma run_of_five:
  fixes fv :: "nat list"
  assumes st: "sorted_wrt (\<lambda>x y. x > y) fv" and i: "i + 4 < length fv"
    and eq: "fv ! i = fv ! (i + 4) + 4"
    and v: "fv ! i - 4 \<le> v" "v \<le> fv ! i"
  shows "v \<in> set fv"
proof -
  have a: "fv ! (i + 1) < fv ! i" using sorted_wrt_nth_less [OF st, of i "i + 1"] i by simp
  have b: "fv ! (i + 2) < fv ! (i + 1)" using sorted_wrt_nth_less [OF st, of "i + 1" "i + 2"] i by simp
  have c: "fv ! (i + 3) < fv ! (i + 2)" using sorted_wrt_nth_less [OF st, of "i + 2" "i + 3"] i by simp
  have d: "fv ! (i + 4) < fv ! (i + 3)" using sorted_wrt_nth_less [OF st, of "i + 3" "i + 4"] i by simp
  from a b c d eq v have
    "v = fv ! i \<or> v = fv ! (i + 1) \<or> v = fv ! (i + 2) \<or> v = fv ! (i + 3) \<or> v = fv ! (i + 4)"
    by arith
  moreover have m: "fv ! (i + k) \<in> set fv" if "k \<le> 4" for k
    using that i by (intro nth_mem) arith
  ultimately show ?thesis
    using m [of 0] m [of 1] m [of 2] m [of 3] m [of 4] by auto
qed

lemma hasCard_range: "hasCard cs s v \<Longrightarrow> 2 \<le> v \<and> v \<le> 14"
  using value_int_range by (auto simp: hasCard_def list_ex_iff)

lemma straightFlushPresent_I1:
  "list_all (hasCard cs s) [14, 2, 3, 4, 5] \<Longrightarrow> straightFlushPresent cs"
  unfolding straightFlushPresent_def list_ex_iff card_suit_UNIV [symmetric] by blast

lemma straightFlushPresent_I2:
  "6 \<le> h \<Longrightarrow> h \<le> 14 \<Longrightarrow> list_all (hasCard cs s) [h - 4..<h + 1] \<Longrightarrow> straightFlushPresent cs"
  unfolding straightFlushPresent_def list_ex_iff card_suit_UNIV [symmetric]
  by (rule bexI [of _ s], rule disjI2, rule bexI [of _ h]) simp_all

lemma detectStraightFlush_sound:
  assumes "detectStraightFlush hasFlush (flushCardsOf hasFlush s cs) hs hc = Inr (True, h)"
  shows "straightFlushPresent cs"
proof -
  let ?fc = "flushCardsOf hasFlush s cs"
  let ?fv = "remdups_adj (sort_desc (map (\<lambda>c. value_int (card_value c)) ?fc))"
  let ?royal = "hs \<and> hc = 14 \<and>
      list_all (\<lambda>v. list_ex (\<lambda>c. value_int (card_value c) = v) ?fc) [10..<15]"
  from assms have hf: hasFlush
    by (auto simp: detectStraightFlush_def split: if_splits)
  then have fc: "set ?fc = {c \<in> set cs. suit c = s}" by (simp add: set_flushCardsOf)
  have fv: "set ?fv = {v. hasCard cs s v}" using hf set_flushValues [of s cs] by simp
  show ?thesis
  proof (cases ?royal)
    case True
    then have "list_all (\<lambda>v. list_ex (\<lambda>c. value_int (card_value c) = v) ?fc) [10..<15]" by simp
    then have "list_all (hasCard cs s) [14 - 4..<14 + 1]"
      unfolding list_all_iff list_ex_iff hasCard_def fc by auto
    then show ?thesis by (rule straightFlushPresent_I2 [rotated 2]) simp_all
  next
    case False
    show ?thesis
    proof (cases "find (\<lambda>i. ?fv ! i = ?fv ! (i + 4) + 4) [0..<length ?fv - 5 + 1]")
      case None
      with assms False hf have "14 \<in> set ?fv \<and> 2 \<in> set ?fv \<and> 3 \<in> set ?fv \<and> 4 \<in> set ?fv \<and> 5 \<in> set ?fv"
        by (simp add: detectStraightFlush_def Let_def split: if_splits)
      then have "list_all (hasCard cs s) [14, 2, 3, 4, 5]" unfolding fv by simp
      then show ?thesis by (rule straightFlushPresent_I1)
    next
      case (Some i)
      from assms False hf have len: "5 \<le> length ?fv"
        by (simp add: detectStraightFlush_def Let_def split: if_splits)
      from find_Some_mem [OF Some]
      have i: "i \<in> set [0..<length ?fv - 5 + 1]" and eq: "?fv ! i = ?fv ! (i + 4) + 4"
        by blast+
      from i have "i < length ?fv - 5 + 1" by (simp only: set_upt atLeastLessThan_iff)
      with len have i4: "i + 4 < length ?fv" by arith
      let ?H = "?fv ! i"
      have mem: "v \<in> set ?fv" if "?H - 4 \<le> v" "v \<le> ?H" for v
        using run_of_five [OF flushValues_strict i4 eq that] .
      then have all: "list_all (hasCard cs s) [?H - 4..<?H + 1]"
        unfolding list_all_iff fv by auto
      have "?H \<in> set ?fv" "?H - 4 \<in> set ?fv" using mem [of ?H] mem [of "?H - 4"] by simp_all
      then have "hasCard cs s ?H" "hasCard cs s (?H - 4)" unfolding fv by simp_all
      then have "?H \<le> 14" "2 \<le> ?H - 4" using hasCard_range by blast+
      then have "6 \<le> ?H" "?H \<le> 14" by arith+
      from straightFlushPresent_I2 [OF this all] show ?thesis .
    qed
  qed
qed

section \<open>The groups of equal values\<close>

lemma rankCount_pos_range: "rankCount cs v > 0 \<Longrightarrow> 2 \<le> v \<and> v < 15"
  using value_int_range value_int_lt_15 by (auto simp: rankCount_pos_iff hasRank_def list_ex_iff)

lemma set_group:
  assumes "n > 0"
  shows "set (filter (\<lambda>i. valueCounts cs ! i = n) [2..<15]) = {v. rankCount cs v = n}"
proof -
  have "v \<in> set [2..<15]" if "rankCount cs v = n" for v
    using rankCount_pos_range [of cs v] that assms by simp
  moreover have "valueCounts cs ! v = rankCount cs v" if "v \<in> set [2..<15]" for v
    using that by (intro valueCounts_nth) simp
  ultimately show ?thesis by auto
qed

lemma set_quadsOf: "set (quadsOf (valueCounts cs)) = {v. rankCount cs v = 4}"
  unfolding quadsOf_def set_sort_desc by (rule set_group) simp

lemma set_tripsOf: "set (tripsOf (valueCounts cs)) = {v. rankCount cs v = 3}"
  unfolding tripsOf_def set_sort_desc by (rule set_group) simp

lemma set_pairsOf: "set (pairsOf (valueCounts cs)) = {v. rankCount cs v = 2}"
  unfolding pairsOf_def set_sort_desc by (rule set_group) simp

lemma set_highCardsOf: "set (highCardsOf (valueCounts cs)) = {v. rankCount cs v = 1}"
  unfolding highCardsOf_def rev_filter [symmetric] set_rev by (rule set_group) simp

lemma distinct_tripsOf: "distinct (tripsOf vc)"
  by (simp add: tripsOf_def distinct_sort_desc)

lemma distinct_pairsOf: "distinct (pairsOf vc)"
  by (simp add: pairsOf_def distinct_sort_desc)

lemma sort_desc_strict: "distinct xs \<Longrightarrow> sorted_wrt (\<lambda>x y. x > y) (sort_desc xs)"
  using flushValues_strict [of xs] by (simp add: remdups_adj_distinct distinct_sort_desc)

lemma desc_nth0:
  fixes ys :: "nat list"
  assumes "sorted_wrt (\<lambda>x y. x > y) ys" "ys \<noteq> []"
  shows "ys ! 0 = Max (set ys)"
proof (cases ys)
  case Nil
  with assms show ?thesis by simp
next
  case (Cons y zs)
  with assms have "\<forall>z\<in>set zs. z < y" by auto
  then have "Max (set (y # zs)) = y" by (intro Max_eqI) auto
  with Cons show ?thesis by simp
qed

lemma desc_nth1:
  fixes ys :: "nat list"
  assumes "sorted_wrt (\<lambda>x y. x > y) ys" "length ys > 1"
  shows "ys ! 1 = Max (set ys - {Max (set ys)})"
proof -
  from assms(2) obtain y z zs where ys: "ys = y # z # zs"
    by (cases ys; cases "tl ys") auto
  with assms have y: "\<forall>w\<in>set (z # zs). w < y" and z: "\<forall>w\<in>set zs. w < z" by auto
  from y have "Max (set ys) = y" unfolding ys by (intro Max_eqI) auto
  moreover from y have "set ys - {y} = set (z # zs)" unfolding ys by auto
  moreover from z have "Max (set (z # zs)) = z" by (intro Max_eqI) auto
  ultimately show ?thesis using ys by simp
qed

lemma tripsOf_nth0:
  "tripsOf (valueCounts cs) \<noteq> [] \<Longrightarrow> tripsOf (valueCounts cs) ! 0 = Max {v. rankCount cs v = 3}"
  using desc_nth0 [of "tripsOf (valueCounts cs)"] sort_desc_strict
  by (simp add: set_tripsOf) (simp add: tripsOf_def)

lemma tripsOf_nth1:
  "length (tripsOf (valueCounts cs)) > 1 \<Longrightarrow>
   tripsOf (valueCounts cs) ! 1 = Max ({v. rankCount cs v = 3} - {Max {v. rankCount cs v = 3}})"
  using desc_nth1 [of "tripsOf (valueCounts cs)"] sort_desc_strict
  by (simp add: set_tripsOf) (simp add: tripsOf_def)

lemma pairsOf_nth0:
  "pairsOf (valueCounts cs) \<noteq> [] \<Longrightarrow> pairsOf (valueCounts cs) ! 0 = Max {v. rankCount cs v = 2}"
  using desc_nth0 [of "pairsOf (valueCounts cs)"] sort_desc_strict
  by (simp add: set_pairsOf) (simp add: pairsOf_def)

lemma pairsOf_nth1:
  "length (pairsOf (valueCounts cs)) > 1 \<Longrightarrow>
   pairsOf (valueCounts cs) ! 1 = Max ({v. rankCount cs v = 2} - {Max {v. rankCount cs v = 2}})"
  using desc_nth1 [of "pairsOf (valueCounts cs)"] sort_desc_strict
  by (simp add: set_pairsOf) (simp add: pairsOf_def)

lemma length_gt1_distinct:
  "distinct xs \<Longrightarrow> length xs > 1 \<longleftrightarrow> (\<exists>a b. a \<noteq> b \<and> a \<in> set xs \<and> b \<in> set xs)"
proof
  assume "distinct xs" "length xs > 1"
  then obtain a b zs where "xs = a # b # zs" by (cases xs; cases "tl xs") auto
  with \<open>distinct xs\<close> show "\<exists>a b. a \<noteq> b \<and> a \<in> set xs \<and> b \<in> set xs" by auto
next
  assume "\<exists>a b. a \<noteq> b \<and> a \<in> set xs \<and> b \<in> set xs"
  then show "length xs > 1" by (cases xs; cases "tl xs") auto
qed

lemma resolve_FULL_HOUSE:
  assumes "\<not> hsf" "quadsOf vc = []"
  shows "(rank (resolve vc hasFlush fc hs hc hsf sfc) = FULL_HOUSE \<longleftrightarrow>
            tripsOf vc \<noteq> [] \<and> (pairsOf vc \<noteq> [] \<or> length (tripsOf vc) > 1)) \<and>
         (rank (resolve vc hasFlush fc hs hc hsf sfc) = FULL_HOUSE \<longrightarrow>
            tiebreakers (resolve vc hasFlush fc hs hc hsf sfc) =
              [int (tripsOf vc ! 0),
               if pairsOf vc \<noteq> [] then int (pairsOf vc ! 0) else int (tripsOf vc ! 1)])"
  using assms by (simp add: resolve_def Let_def)

lemma hasQuads_iff: "hasQuads cs \<longleftrightarrow> (\<exists>v. rankCount cs v = 4)"
  using rankCount_pos_range [of cs] by (auto simp: hasQuads_def list_ex_iff)

section \<open>Full houses\<close>

text \<open>
  Claim C5. For a 7-card hand without four cards of one value and without a straight
  flush, the rank is FULL_HOUSE exactly when some value occurs three times and, besides,
  some value occurs twice or a second value occurs three times. The tiebreakers are then
  the highest value that occurs three times, followed by the highest value that occurs
  twice or, if no value occurs twice, by the second value that occurs three times.
\<close>

theorem full_house_resolution:
  assumes "hand7 cs" and "\<not> hasQuads cs" and "\<not> straightFlushPresent cs"
  shows "\<exists>e. evaluateComplete cs = Inr e \<and>
     (rank e = FULL_HOUSE \<longleftrightarrow>
        (\<exists>t. rankCount cs t = 3 \<and>
             ((\<exists>p. rankCount cs p = 2) \<or> (\<exists>t'. t' \<noteq> t \<and> rankCount cs t' = 3)))) \<and>
     (rank e = FULL_HOUSE \<longrightarrow>
        tiebreakers e =
          [int (Max {v. rankCount cs v = 3}),
           if (\<exists>p. rankCount cs p = 2) then int (Max {v. rankCount cs v = 2})
           else int (Max ({v. rankCount cs v = 3} - {Max {v. rankCount cs v = 3}}))])"
proof -
  let ?vc = "valueCounts cs"
  from assms(1) have d: "distinct cs" by (simp add: hand7_def)
  from d obtain hasFlush s hs hc hsf sfc where
    sf: "detectStraightFlush hasFlush (flushCardsOf hasFlush s cs) hs hc = Inr (hsf, sfc)" and
    e: "evaluateComplete cs =
       Inr (resolve ?vc hasFlush (flushCardsOf hasFlush s cs) hs hc hsf sfc)"
    by (rule evaluateComplete_resolve)
  let ?e = "resolve ?vc hasFlush (flushCardsOf hasFlush s cs) hs hc hsf sfc"
  have nsf: "\<not> hsf"
  proof
    assume hsf
    with sf have "straightFlushPresent cs" by (auto intro: detectStraightFlush_sound)
    with assms(3) show False by simp
  qed
  have "set (quadsOf ?vc) = {}" using assms(2) by (simp add: set_quadsOf hasQuads_iff)
  then have nq: "quadsOf ?vc = []" by simp
  note fh = resolve_FULL_HOUSE [OF nsf nq, of hasFlush "flushCardsOf hasFlush s cs" hs hc sfc]
  note fh1 = fh [THEN conjunct1] and fh2 = fh [THEN conjunct2]
  have "tripsOf ?vc \<noteq> [] \<longleftrightarrow> set (tripsOf ?vc) \<noteq> {}" by simp
  then have t0: "tripsOf ?vc \<noteq> [] \<longleftrightarrow> (\<exists>t. rankCount cs t = 3)"
    by (simp add: set_tripsOf)
  have "pairsOf ?vc \<noteq> [] \<longleftrightarrow> set (pairsOf ?vc) \<noteq> {}" by simp
  then have p0: "pairsOf ?vc \<noteq> [] \<longleftrightarrow> (\<exists>p. rankCount cs p = 2)"
    by (simp add: set_pairsOf)
  have t1: "length (tripsOf ?vc) > 1 \<longleftrightarrow> (\<exists>t t'. t \<noteq> t' \<and> rankCount cs t = 3 \<and> rankCount cs t' = 3)"
    using length_gt1_distinct [OF distinct_tripsOf, of ?vc] by (simp add: set_tripsOf)
  have iff: "(tripsOf ?vc \<noteq> [] \<and> (pairsOf ?vc \<noteq> [] \<or> length (tripsOf ?vc) > 1)) \<longleftrightarrow>
        (\<exists>t. rankCount cs t = 3 \<and>
             ((\<exists>p. rankCount cs p = 2) \<or> (\<exists>t'. t' \<noteq> t \<and> rankCount cs t' = 3)))"
    unfolding t0 p0 t1 by blast
  have r: "rank ?e = FULL_HOUSE \<longleftrightarrow>
        (\<exists>t. rankCount cs t = 3 \<and>
             ((\<exists>p. rankCount cs p = 2) \<or> (\<exists>t'. t' \<noteq> t \<and> rankCount cs t' = 3)))"
    using fh1 iff by (rule trans)
  have tb: "rank ?e = FULL_HOUSE \<longrightarrow> tiebreakers ?e =
          [int (Max {v. rankCount cs v = 3}),
           if (\<exists>p. rankCount cs p = 2) then int (Max {v. rankCount cs v = 2})
           else int (Max ({v. rankCount cs v = 3} - {Max {v. rankCount cs v = 3}}))]"
  proof
    assume full: "rank ?e = FULL_HOUSE"
    from full fh1 have c: "tripsOf ?vc \<noteq> [] \<and> (pairsOf ?vc \<noteq> [] \<or> length (tripsOf ?vc) > 1)"
      by (rule_tac iffD1)
    from full fh2 have v: "tiebreakers ?e = [int (tripsOf ?vc ! 0),
               if pairsOf ?vc \<noteq> [] then int (pairsOf ?vc ! 0) else int (tripsOf ?vc ! 1)]"
      by (rule_tac mp)
    from c have c1: "tripsOf ?vc \<noteq> []" by (rule conjunct1)
    show "tiebreakers ?e =
          [int (Max {v. rankCount cs v = 3}),
           if (\<exists>p. rankCount cs p = 2) then int (Max {v. rankCount cs v = 2})
           else int (Max ({v. rankCount cs v = 3} - {Max {v. rankCount cs v = 3}}))]"
    proof (cases "pairsOf ?vc \<noteq> []")
      case True
      then have "\<exists>p. rankCount cs p = 2" using p0 by (rule_tac iffD1)
      then show ?thesis
        unfolding v using True by (simp only: if_True not_False_eq_True simp_thms tripsOf_nth0 [OF c1] pairsOf_nth0 [OF True])
    next
      case False
      with c have l: "length (tripsOf ?vc) > 1" by blast
      from False p0 have "\<not> (\<exists>p. rankCount cs p = 2)" by blast
      then show ?thesis
        unfolding v using False by (simp only: if_False if_True not_False_eq_True simp_thms tripsOf_nth0 [OF c1] tripsOf_nth1 [OF l])
    qed
  qed
  from e r tb show ?thesis by (intro exI [of _ ?e] conjI)
qed

theorem full_house_resolution_witness:
  "hand7 [Card SPADES KING, Card HEARTS KING, Card CLUBS KING, Card SPADES QUEEN,
          Card HEARTS QUEEN, Card CLUBS QUEEN, Card DIAMONDS JACK] \<and>
   \<not> hasQuads [Card SPADES KING, Card HEARTS KING, Card CLUBS KING, Card SPADES QUEEN,
          Card HEARTS QUEEN, Card CLUBS QUEEN, Card DIAMONDS JACK] \<and>
   \<not> straightFlushPresent [Card SPADES KING, Card HEARTS KING, Card CLUBS KING,
          Card SPADES QUEEN, Card HEARTS QUEEN, Card CLUBS QUEEN, Card DIAMONDS JACK] \<and>
   (\<exists>e. evaluateComplete [Card SPADES KING, Card HEARTS KING, Card CLUBS KING, Card SPADES QUEEN,
          Card HEARTS QUEEN, Card CLUBS QUEEN, Card DIAMONDS JACK] = Inr e \<and>
        rank e = FULL_HOUSE \<and> tiebreakers e = [13, 12] \<and>
        tiebreakers e =
          [int (Max {v. rankCount [Card SPADES KING, Card HEARTS KING, Card CLUBS KING,
                  Card SPADES QUEEN, Card HEARTS QUEEN, Card CLUBS QUEEN, Card DIAMONDS JACK] v = 3}),
           if (\<exists>p. rankCount [Card SPADES KING, Card HEARTS KING, Card CLUBS KING,
                  Card SPADES QUEEN, Card HEARTS QUEEN, Card CLUBS QUEEN, Card DIAMONDS JACK] p = 2)
           then int (Max {v. rankCount [Card SPADES KING, Card HEARTS KING, Card CLUBS KING,
                  Card SPADES QUEEN, Card HEARTS QUEEN, Card CLUBS QUEEN, Card DIAMONDS JACK] v = 2})
           else int (Max ({v. rankCount [Card SPADES KING, Card HEARTS KING, Card CLUBS KING,
                  Card SPADES QUEEN, Card HEARTS QUEEN, Card CLUBS QUEEN, Card DIAMONDS JACK] v = 3}
              - {Max {v. rankCount [Card SPADES KING, Card HEARTS KING, Card CLUBS KING,
                  Card SPADES QUEEN, Card HEARTS QUEEN, Card CLUBS QUEEN, Card DIAMONDS JACK] v = 3}}))])"
proof -
  let ?cs = "[Card SPADES KING, Card HEARTS KING, Card CLUBS KING, Card SPADES QUEEN,
          Card HEARTS QUEEN, Card CLUBS QUEEN, Card DIAMONDS JACK]"
  have a: "hand7 ?cs" by (simp add: hand7_def)
  have b: "\<not> hasQuads ?cs" by code_simp
  have c: "\<not> straightFlushPresent ?cs" by code_simp
  have r: "evaluateComplete ?cs = Inr \<lparr>rank = FULL_HOUSE, tiebreakers = [13, 12]\<rparr>" by code_simp
  from full_house_resolution [OF a b c] obtain e where e: "evaluateComplete ?cs = Inr e"
    and t: "rank e = FULL_HOUSE \<longrightarrow>
        tiebreakers e =
          [int (Max {v. rankCount ?cs v = 3}),
           if (\<exists>p. rankCount ?cs p = 2) then int (Max {v. rankCount ?cs v = 2})
           else int (Max ({v. rankCount ?cs v = 3} - {Max {v. rankCount ?cs v = 3}}))]"
    by (elim conjE exE)
  from e r have "e = \<lparr>rank = FULL_HOUSE, tiebreakers = [13, 12]\<rparr>" by (simp only: sum.inject)
  then have k: "rank e = FULL_HOUSE" "tiebreakers e = [13, 12]" by simp_all
  with t have "tiebreakers e =
          [int (Max {v. rankCount ?cs v = 3}),
           if (\<exists>p. rankCount ?cs p = 2) then int (Max {v. rankCount ?cs v = 2})
           else int (Max ({v. rankCount ?cs v = 3} - {Max {v. rankCount ?cs v = 3}}))]"
    by (rule_tac mp)
  with e k have "\<exists>e. evaluateComplete ?cs = Inr e \<and>
        rank e = FULL_HOUSE \<and> tiebreakers e = [13, 12] \<and>
        tiebreakers e =
          [int (Max {v. rankCount ?cs v = 3}),
           if (\<exists>p. rankCount ?cs p = 2) then int (Max {v. rankCount ?cs v = 2})
           else int (Max ({v. rankCount ?cs v = 3} - {Max {v. rankCount ?cs v = 3}}))]"
    by (intro exI [of _ e] conjI)
  with a b c show ?thesis by (intro conjI)
qed

section \<open>Two pairs\<close>

lemma highCardsOf_strict: "sorted_wrt (\<lambda>x y. x > y) (highCardsOf vc)"
proof -
  have "sorted_wrt (<) [2..<15]" by simp
  then have "sorted_wrt (\<lambda>x y. x > y) (rev [2..<15])" by (simp only: sorted_wrt_rev)
  then show ?thesis unfolding highCardsOf_def by (rule sorted_wrt_filter)
qed

lemma highCardsOf_nth0:
  "highCardsOf (valueCounts cs) \<noteq> [] \<Longrightarrow>
   highCardsOf (valueCounts cs) ! 0 = Max {v. rankCount cs v = 1}"
  using desc_nth0 [OF highCardsOf_strict, of "valueCounts cs"] by (simp add: set_highCardsOf)

lemma resolve_TWO_PAIR:
  assumes "rank (resolve vc hasFlush fc hs hc hsf sfc) = TWO_PAIR"
  shows "quadsOf vc = [] \<and> tripsOf vc = [] \<and> length (pairsOf vc) \<ge> 2 \<and>
         tiebreakers (resolve vc hasFlush fc hs hc hsf sfc) =
           int (pairsOf vc ! 0) # int (pairsOf vc ! 1) # map int (take 1 (highCardsOf vc))"
  using assms by (auto simp: resolve_def Let_def split: if_splits)

text \<open>
  What the code does for TWO_PAIR: the two highest values that occur twice, then the
  highest value that occurs exactly once. A third pair is never the kicker.
\<close>

lemma two_pair_tiebreakers:
  assumes "hand7 cs" and "evaluateComplete cs = Inr e" and "rank e = TWO_PAIR"
  shows "tiebreakers e =
           [int (Max {v. rankCount cs v = 2}),
            int (Max ({v. rankCount cs v = 2} - {Max {v. rankCount cs v = 2}})),
            int (Max {v. rankCount cs v = 1})]"
proof -
  let ?vc = "valueCounts cs"
  from assms(1) have d: "distinct cs" and l: "length cs = 7" by (simp_all add: hand7_def)
  from d obtain hasFlush s hs hc hsf sfc where
    e: "evaluateComplete cs =
       Inr (resolve ?vc hasFlush (flushCardsOf hasFlush s cs) hs hc hsf sfc)"
    by (rule evaluateComplete_resolve)
  with assms(2) have e': "e = resolve ?vc hasFlush (flushCardsOf hasFlush s cs) hs hc hsf sfc"
    by simp
  from resolve_TWO_PAIR [OF assms(3) [unfolded e']]
  have q: "quadsOf ?vc = []" and t: "tripsOf ?vc = []" and p: "length (pairsOf ?vc) \<ge> 2"
    and tb: "tiebreakers e =
           int (pairsOf ?vc ! 0) # int (pairsOf ?vc ! 1) # map int (take 1 (highCardsOf ?vc))"
    unfolding e' by blast+
  from group_sizes [OF d] q t l
  have "2 * length (pairsOf ?vc) + length (highCardsOf ?vc) = 7" by simp
  then have "length (highCardsOf ?vc) \<noteq> 0" by arith
  then have h: "highCardsOf ?vc \<noteq> []" by simp
  then obtain x xs where hx: "highCardsOf ?vc = x # xs" by (cases "highCardsOf ?vc") auto
  then have "take 1 (highCardsOf ?vc) = [highCardsOf ?vc ! 0]" by simp
  with tb have "tiebreakers e =
           [int (pairsOf ?vc ! 0), int (pairsOf ?vc ! 1), int (highCardsOf ?vc ! 0)]" by simp
  moreover from p have p0: "pairsOf ?vc \<noteq> []" and p1: "length (pairsOf ?vc) > 1" by auto
  ultimately show ?thesis
    by (simp only: pairsOf_nth0 [OF p0] pairsOf_nth1 [OF p1] highCardsOf_nth0 [OF h])
qed

text \<open>
  Claim C1. With three pairs the claim asks for the rank of the third pair as kicker.
  For aces, kings and queens paired, with a deuce, the best five cards are A A K K Q; the
  code returns the deuce as kicker although queens are present twice.
\<close>

theorem two_pair_third_pair_not_kicker:
  "evaluateComplete [Card CLUBS ACE, Card DIAMONDS ACE, Card CLUBS KING, Card DIAMONDS KING,
       Card CLUBS QUEEN, Card DIAMONDS QUEEN, Card HEARTS TWO]
     = Inr \<lparr>rank = TWO_PAIR, tiebreakers = [14, 13, 2]\<rparr> \<and>
   rankCount [Card CLUBS ACE, Card DIAMONDS ACE, Card CLUBS KING, Card DIAMONDS KING,
       Card CLUBS QUEEN, Card DIAMONDS QUEEN, Card HEARTS TWO] 12 = 2 \<and>
   hand7 [Card CLUBS ACE, Card DIAMONDS ACE, Card CLUBS KING, Card DIAMONDS KING,
       Card CLUBS QUEEN, Card DIAMONDS QUEEN, Card HEARTS TWO]"
proof -
  let ?cs = "[Card CLUBS ACE, Card DIAMONDS ACE, Card CLUBS KING, Card DIAMONDS KING,
       Card CLUBS QUEEN, Card DIAMONDS QUEEN, Card HEARTS TWO]"
  have a: "evaluateComplete ?cs = Inr \<lparr>rank = TWO_PAIR, tiebreakers = [14, 13, 2]\<rparr>"
    by code_simp
  have b: "rankCount ?cs 12 = 2" by code_simp
  have c: "hand7 ?cs" by (simp add: hand7_def)
  from a b c show ?thesis by (intro conjI)
qed

section \<open>Shuffling and dealing\<close>

declare dealUntil.simps [simp del]

lemma cardsEqual_iff: "cardsEqual a b \<longleftrightarrow> a = b"
  by (simp add: cardsEqual_def toInt_inj)

lemma removeCard_remove1: "removeCard c d = remove1 c d"
  by (induction d) (auto simp: cardsEqual_iff)

lemma mset_foldl_removeCard: "mset (foldl (\<lambda>d c. removeCard c d) d cs) = mset d - mset cs"
  by (induction cs arbitrary: d) (simp_all add: removeCard_remove1)

lemma distinct_reset: "distinct reset"
  by code_simp

lemma length_reset: "length reset = 52"
  by code_simp

lemma set_reset: "set reset = UNIV"
proof -
  have "Card s v \<in> set reset" for s v
    by (cases s; cases v) (simp_all add: reset_def all_suits_def all_values_def)
  then have "c \<in> set reset" for c by (cases c) simp
  then show ?thesis by auto
qed

lemma mset_subset_reset: "distinct cs \<Longrightarrow> mset cs \<subseteq># mset reset"
proof (rule mset_subset_eqI)
  fix a
  assume "distinct cs"
  then have "count (mset cs) a \<le> 1" by (simp add: distinct_count_atmost_1)
  also have "1 = count (mset reset) a"
    using distinct_reset set_reset by (simp add: distinct_count_atmost_1)
  finally show "count (mset cs) a \<le> count (mset reset) a" .
qed

lemma distinct_from_reset: "mset cs \<subseteq># mset reset \<Longrightarrow> distinct cs"
proof -
  assume a: "mset cs \<subseteq># mset reset"
  have "count (mset cs) x \<le> 1" for x
  proof -
    have "count (mset cs) x \<le> count (mset reset) x" using a by (rule mset_subset_eq_count)
    also have "\<dots> \<le> 1" using distinct_reset by (simp add: distinct_count_atmost_1)
    finally show ?thesis .
  qed
  then show ?thesis unfolding distinct_count_atmost_1 by (auto simp: le_Suc_eq)
qed

lemma shuffle_loop_mset:
  "k < length cards \<Longrightarrow> mset (fst (shuffle_loop k r cards)) = mset cards"
proof (induction k arbitrary: r cards)
  case 0
  then show ?case by simp
next
  case (Suc k)
  obtain x r' where x: "rand r = (x, r')" by (cases "rand r")
  let ?j = "x mod (Suc k + 1)"
  let ?cards = "cards[Suc k := cards ! ?j, ?j := cards ! Suc k]"
  have "?j < Suc k + 1" by simp
  with Suc.prems have j: "?j < length cards" by arith
  have "k < length ?cards" using Suc.prems by simp
  from Suc.IH [OF this, of r']
  have "mset (fst (shuffle_loop k r' ?cards)) = mset ?cards" .
  also have "\<dots> = mset cards" using Suc.prems j by (rule_tac mset_swap)
  finally show ?case by (simp add: x Let_def)
qed

lemma shuffle_ok:
  assumes "cards \<noteq> []"
  shows "\<exists>d' r'. shuffle r cards = Inr (d', r') \<and> mset d' = mset cards"
proof -
  have "length cards - 1 < length cards" using assms by (cases cards) simp_all
  from shuffle_loop_mset [OF this, of r] assms show ?thesis
    by (cases "shuffle_loop (length cards - 1) r cards") (simp add: shuffle_def)
qed

lemma deal_ok:
  assumes "d \<noteq> []"
  shows "\<exists>c d'. deal d = Inr (c, d') \<and> mset d = mset d' + {#c#} \<and> length d = Suc (length d')"
proof -
  have "mset (butlast d @ [last d]) = mset (butlast d) + {#last d#}" by simp
  with assms have "mset d = mset (butlast d) + {#last d#}" by simp
  with assms show ?thesis by (simp add: deal_def)
qed

lemma dealUntil_ok:
  "n - length v \<le> length d \<Longrightarrow>
   \<exists>v' d'. dealUntil n v d = Inr (v', d') \<and> mset v' + mset d' = mset v + mset d \<and>
     length v' = max n (length v) \<and> take (length v) v' = v \<and>
     length v' + length d' = length v + length d"
proof (induction n v d rule: dealUntil.induct)
  case (1 n v d)
  show ?case
  proof (cases "length v < n")
    case False
    then show ?thesis by (subst dealUntil.simps) (simp add: max_def)
  next
    case True
    with "1.prems" have "d \<noteq> []" by auto
    from deal_ok [OF this] obtain c d' where
      c: "deal d = Inr (c, d')" "mset d = mset d' + {#c#}" "length d = Suc (length d')" by blast
    have "n - length (v @ [c]) \<le> length d'" using "1.prems" c(3) by simp
    from "1.IH" [OF True c(1) refl this] obtain v' d'' where
      r: "dealUntil n (v @ [c]) d' = Inr (v', d'')"
      "mset v' + mset d'' = mset (v @ [c]) + mset d'"
      "length v' = max n (length (v @ [c]))"
      "take (length (v @ [c])) v' = v @ [c]"
      "length v' + length d'' = length (v @ [c]) + length d'" by blast
    have "dealUntil n v d = Inr (v', d'')"
      by (subst dealUntil.simps) (simp add: True c(1) r(1))
    moreover have "mset v' + mset d'' = mset v + mset d" using r(2) c(2) by simp
    moreover have "length v' = max n (length v)" using r(3) True by (simp add: max_def)
    moreover have "take (length v) v' = v"
    proof -
      have "take (length v) (take (length (v @ [c])) v') = take (length v) (v @ [c])"
        by (simp only: r(4))
      then show ?thesis by (simp add: min_def)
    qed
    moreover have "length v' + length d'' = length v + length d" using r(5) c(3) by simp
    ultimately show ?thesis by blast
  qed
qed

section \<open>Completing the board\<close>

lemma dealCommunity_ok:
  assumes "deck g \<noteq> []"
  shows "\<exists>g'. dealCommunity g = Inr g' \<and> botHoleCards g' = botHoleCards g \<and>
           opponentHoleCards g' = opponentHoleCards g \<and> cardsOf g' = cardsOf g \<and>
           length (communityCards g') = Suc (length (communityCards g)) \<and>
           take (length (communityCards g)) (communityCards g') = communityCards g \<and>
           length (deck g) = Suc (length (deck g'))"
proof -
  from deal_ok [OF assms] obtain c d' where
    c: "deal (deck g) = Inr (c, d')" "mset (deck g) = mset d' + {#c#}"
    "length (deck g) = Suc (length d')" by blast
  then show ?thesis by (simp add: dealCommunity_def cardsOf_def)
qed

lemma dealFlop_ok:
  assumes "3 - length (communityCards g) \<le> length (deck g)"
  shows "\<exists>g'. dealFlop g = Inr g' \<and> botHoleCards g' = botHoleCards g \<and>
           opponentHoleCards g' = opponentHoleCards g \<and> cardsOf g' = cardsOf g \<and>
           length (communityCards g') = max 3 (length (communityCards g)) \<and>
           take (length (communityCards g)) (communityCards g') = communityCards g \<and>
           length (communityCards g') + length (deck g')
             = length (communityCards g) + length (deck g)"
proof (cases "length (communityCards g) \<ge> 3")
  case True
  then show ?thesis by (simp add: dealFlop_def max_def)
next
  case False
  from dealUntil_ok [OF assms] obtain v d' where
    r: "dealUntil 3 (communityCards g) (deck g) = Inr (v, d')"
    "mset v + mset d' = mset (communityCards g) + mset (deck g)"
    "length v = max 3 (length (communityCards g))"
    "take (length (communityCards g)) v = communityCards g"
    "length v + length d' = length (communityCards g) + length (deck g)" by blast
  have "cardsOf (g\<lparr>deck := d', communityCards := v\<rparr>) = cardsOf g"
    using r(2) by (simp add: cardsOf_def ac_simps)
  with False r show ?thesis by (simp add: dealFlop_def)
qed

lemma dealTurn_ok:
  assumes "4 - length (communityCards g) \<le> length (deck g)"
  shows "\<exists>g'. dealTurn g = Inr g' \<and> botHoleCards g' = botHoleCards g \<and>
           opponentHoleCards g' = opponentHoleCards g \<and> cardsOf g' = cardsOf g \<and>
           length (communityCards g') = max 4 (length (communityCards g)) \<and>
           take (length (communityCards g)) (communityCards g') = communityCards g \<and>
           length (communityCards g') + length (deck g')
             = length (communityCards g) + length (deck g)"
proof (cases "length (communityCards g) \<ge> 4")
  case True
  then show ?thesis by (simp add: dealTurn_def max_def)
next
  case False
  have "3 - length (communityCards g) \<le> length (deck g)" using assms by arith
  from dealFlop_ok [OF this] obtain g1 where
    g1: "dealFlop g = Inr g1" "botHoleCards g1 = botHoleCards g"
    "opponentHoleCards g1 = opponentHoleCards g" "cardsOf g1 = cardsOf g"
    "length (communityCards g1) = max 3 (length (communityCards g))"
    "take (length (communityCards g)) (communityCards g1) = communityCards g"
    "length (communityCards g1) + length (deck g1) = length (communityCards g) + length (deck g)"
    by blast
  define g2 where "g2 = (if length (communityCards g) < 3 then g1 else g)"
  have g2: "(if length (communityCards g) < 3 then dealFlop g else Inr g) = Inr g2"
    "botHoleCards g2 = botHoleCards g" "opponentHoleCards g2 = opponentHoleCards g"
    "cardsOf g2 = cardsOf g" "length (communityCards g2) = 3"
    "take (length (communityCards g)) (communityCards g2) = communityCards g"
    "length (communityCards g2) + length (deck g2) = length (communityCards g) + length (deck g)"
    using g1 False by (auto simp: g2_def max_def)
  have "deck g2 \<noteq> []" using g2(5,7) assms False by auto
  from dealCommunity_ok [OF this] obtain g3 where
    g3: "dealCommunity g2 = Inr g3" "botHoleCards g3 = botHoleCards g2"
    "opponentHoleCards g3 = opponentHoleCards g2" "cardsOf g3 = cardsOf g2"
    "length (communityCards g3) = Suc (length (communityCards g2))"
    "take (length (communityCards g2)) (communityCards g3) = communityCards g2"
    "length (deck g2) = Suc (length (deck g3))" by blast
  have t: "take (length (communityCards g)) (communityCards g3) = communityCards g"
  proof -
    have "take (length (communityCards g)) (take (length (communityCards g2)) (communityCards g3))
        = communityCards g" by (simp only: g3(6) g2(6))
    moreover have "length (communityCards g) \<le> length (communityCards g2)"
      using g2(5) False by simp
    ultimately show ?thesis by (simp add: min_def)
  qed
  have "dealTurn g = Inr g3" using False g2(1) g3(1) by (simp add: dealTurn_def)
  with g2 g3 t False show ?thesis by (simp add: max_def)
qed

lemma dealRiver_ok:
  assumes "5 - length (communityCards g) \<le> length (deck g)"
  shows "\<exists>g'. dealRiver g = Inr g' \<and> botHoleCards g' = botHoleCards g \<and>
           opponentHoleCards g' = opponentHoleCards g \<and> cardsOf g' = cardsOf g \<and>
           length (communityCards g') = max 5 (length (communityCards g)) \<and>
           take (length (communityCards g)) (communityCards g') = communityCards g \<and>
           length (communityCards g') + length (deck g')
             = length (communityCards g) + length (deck g)"
proof (cases "length (communityCards g) \<ge> 5")
  case True
  then show ?thesis by (simp add: dealRiver_def max_def)
next
  case False
  have "4 - length (communityCards g) \<le> length (deck g)" using assms by arith
  from dealTurn_ok [OF this] obtain g1 where
    g1: "dealTurn g = Inr g1" "botHoleCards g1 = botHoleCards g"
    "opponentHoleCards g1 = opponentHoleCards g" "cardsOf g1 = cardsOf g"
    "length (communityCards g1) = max 4 (length (communityCards g))"
    "take (length (communityCards g)) (communityCards g1) = communityCards g"
    "length (communityCards g1) + length (deck g1) = length (communityCards g) + length (deck g)"
    by blast
  define g2 where "g2 = (if length (communityCards g) < 4 then g1 else g)"
  have g2: "(if length (communityCards g) < 4 then dealTurn g else Inr g) = Inr g2"
    "botHoleCards g2 = botHoleCards g" "opponentHoleCards g2 = opponentHoleCards g"
    "cardsOf g2 = cardsOf g" "length (communityCards g2) = 4"
    "take (length (communityCards g)) (communityCards g2) = communityCards g"
    "length (communityCards g2) + length (deck g2) = length (communityCards g) + length (deck g)"
    using g1 False by (auto simp: g2_def max_def)
  have "deck g2 \<noteq> []" using g2(5,7) assms False by auto
  from dealCommunity_ok [OF this] obtain g3 where
    g3: "dealCommunity g2 = Inr g3" "botHoleCards g3 = botHoleCards g2"
    "opponentHoleCards g3 = opponentHoleCards g2" "cardsOf g3 = cardsOf g2"
    "length (communityCards g3) = Suc (length (communityCards g2))"
    "take (length (communityCards g2)) (communityCards g3) = communityCards g2"
    "length (deck g2) = Suc (length (deck g3))" by blast
  have t: "take (length (communityCards g)) (communityCards g3) = communityCards g"
  proof -
    have "take (length (communityCards g)) (take (length (communityCards g2)) (communityCards g3))
        = communityCards g" by (simp only: g3(6) g2(6))
    moreover have "length (communityCards g) \<le> length (communityCards g2)"
      using g2(5) False by simp
    ultimately show ?thesis by (simp add: min_def)
  qed
  have "dealRiver g = Inr g3" using False g2(1) g3(1) by (simp add: dealRiver_def)
  with g2 g3 t False show ?thesis by (simp add: max_def)
qed

section \<open>One trial\<close>

lemma initialize_ok:
  assumes "distinct (holeCards @ communityCards')"
    and "length holeCards + length communityCards' \<le> 49"
  shows "\<exists>g' r'. initialize r holeCards communityCards' g = Inr (g', r') \<and>
           botHoleCards g' = holeCards \<and> communityCards g' = communityCards' \<and>
           length (opponentHoleCards g') = 2 \<and> cardsOf g' = mset reset \<and>
           length (deck g') = 50 - (length holeCards + length communityCards')"
proof -
  let ?d2 = "foldl (\<lambda>d c. removeCard c d) (foldl (\<lambda>d c. removeCard c d) reset holeCards)
               communityCards'"
  have sub: "mset (holeCards @ communityCards') \<subseteq># mset reset"
    using assms(1) by (rule mset_subset_reset)
  have m2: "mset ?d2 = mset reset - mset (holeCards @ communityCards')"
    by (simp add: mset_foldl_removeCard)
  have "size (mset ?d2) = size (mset reset) - size (mset (holeCards @ communityCards'))"
    unfolding m2 using sub by (rule size_Diff_submset)
  then have l2: "length ?d2 = 52 - (length holeCards + length communityCards')"
    by (simp add: length_reset)
  with assms(2) have "?d2 \<noteq> []" by auto
  from shuffle_ok [OF this, of r] obtain d3 r' where
    d3: "shuffle r ?d2 = Inr (d3, r')" "mset d3 = mset ?d2" by blast
  from d3(2) have "size (mset d3) = size (mset ?d2)" by simp
  with l2 have l3: "length d3 = 52 - (length holeCards + length communityCards')" by simp
  with assms(2) have "d3 \<noteq> []" by auto
  from deal_ok [OF this] obtain o1 d4 where
    d4: "deal d3 = Inr (o1, d4)" "mset d3 = mset d4 + {#o1#}" "length d3 = Suc (length d4)"
    by blast
  with l3 assms(2) have "d4 \<noteq> []" by auto
  from deal_ok [OF this] obtain o2 d5 where
    d5: "deal d4 = Inr (o2, d5)" "mset d4 = mset d5 + {#o2#}" "length d4 = Suc (length d5)"
    by blast
  let ?g = "g\<lparr>deck := d5, botHoleCards := holeCards, opponentHoleCards := [o1, o2],
              communityCards := communityCards'\<rparr>"
  have i: "initialize r holeCards communityCards' g = Inr (?g, r')"
    by (simp add: initialize_def Let_def d3(1) d4(1) d5(1))
  have "cardsOf ?g = mset d3 + mset (holeCards @ communityCards')"
    by (simp add: cardsOf_def d4(2) d5(2))
  also have "\<dots> = mset reset"
    unfolding d3(2) m2 using sub by (rule subset_mset.diff_add)
  finally have c: "cardsOf ?g = mset reset" .
  have "length (deck ?g) = 50 - (length holeCards + length communityCards')"
    using l3 d4(3) d5(3) by simp
  with i c show ?thesis by simp
qed

lemma evaluate_seven:
  assumes "length cs = 7" "distinct cs"
  shows "\<exists>ev. evaluateComplete cs = Inr ev \<and> evaluate r cs = Inr (ev, r)"
proof -
  from evaluateComplete_defined [OF assms(2)] obtain ev where "evaluateComplete cs = Inr ev"
    by blast
  with assms(1) show ?thesis by (simp add: evaluate_def)
qed

lemma isWinner_ok:
  assumes "length (communityCards g) = 5" "length (botHoleCards g) = 2"
    "length (opponentHoleCards g) = 2" "cardsOf g = mset reset"
  shows "\<exists>botEval opponentEval.
           isWinner r g = Inr (gt botEval opponentEval, g, r) \<and>
           evaluateComplete (botHoleCards g @ communityCards g) = Inr botEval \<and>
           evaluateComplete (opponentHoleCards g @ communityCards g) = Inr opponentEval"
proof -
  have cb: "completeBoard g = Inr g" using assms(1) by (simp add: completeBoard_def dealRiver_def)
  have "mset (botHoleCards g @ communityCards g) \<subseteq># cardsOf g"
    by (simp add: cardsOf_def)
  then have db: "distinct (botHoleCards g @ communityCards g)"
    unfolding assms(4) by (rule distinct_from_reset)
  have "mset (opponentHoleCards g @ communityCards g) \<subseteq># cardsOf g"
    by (simp add: cardsOf_def)
  then have dopp: "distinct (opponentHoleCards g @ communityCards g)"
    unfolding assms(4) by (rule distinct_from_reset)
  have "length (botHoleCards g @ communityCards g) = 7" using assms by simp
  from evaluate_seven [OF this db, of r] obtain botEval where
    b: "evaluateComplete (botHoleCards g @ communityCards g) = Inr botEval"
    "evaluate r (botHoleCards g @ communityCards g) = Inr (botEval, r)" by blast
  have "length (opponentHoleCards g @ communityCards g) = 7" using assms by simp
  from evaluate_seven [OF this dopp, of r] obtain opponentEval where
    o: "evaluateComplete (opponentHoleCards g @ communityCards g) = Inr opponentEval"
    "evaluate r (opponentHoleCards g @ communityCards g) = Inr (opponentEval, r)" by blast
  have "isWinner r g = Inr (gt botEval opponentEval, g, r)"
    by (simp add: isWinner_def cb Let_def b(2) o(2))
  with b(1) o(1) show ?thesis by blast
qed

lemma trial_ok:
  assumes "knownHand (myCards b) (community b)"
  shows "\<exists>g' r' botEval opponentEval.
           runSingleSimulation r b = Inr (gt botEval opponentEval, b\<lparr>game := g'\<rparr>, r') \<and>
           botHoleCards g' = myCards b \<and> length (opponentHoleCards g') = 2 \<and>
           length (communityCards g') = 5 \<and>
           take (length (community b)) (communityCards g') = community b \<and>
           cardsOf g' = mset reset \<and>
           evaluateComplete (botHoleCards g' @ communityCards g') = Inr botEval \<and>
           evaluateComplete (opponentHoleCards g' @ communityCards g') = Inr opponentEval"
proof -
  from assms have k: "length (myCards b) = 2" "length (community b) \<le> 5"
    "distinct (myCards b @ community b)"
    by (auto simp: knownHand_def)
  then have "length (myCards b) + length (community b) \<le> 49" by simp
  from initialize_ok [OF k(3) this, of r "game b"] obtain g1 r1 where
    g1: "initialize r (myCards b) (community b) (game b) = Inr (g1, r1)"
    "botHoleCards g1 = myCards b" "communityCards g1 = community b"
    "length (opponentHoleCards g1) = 2" "cardsOf g1 = mset reset"
    "length (deck g1) = 50 - (length (myCards b) + length (community b))" by blast
  have "5 - length (communityCards g1) \<le> length (deck g1)" using g1(3,6) k by simp
  from dealRiver_ok [OF this] obtain g2 where
    g2: "dealRiver g1 = Inr g2" "botHoleCards g2 = botHoleCards g1"
    "opponentHoleCards g2 = opponentHoleCards g1" "cardsOf g2 = cardsOf g1"
    "length (communityCards g2) = max 5 (length (communityCards g1))"
    "take (length (communityCards g1)) (communityCards g2) = communityCards g1" by blast
  have l5: "length (communityCards g2) = 5" using g2(5) g1(3) k(2) by (simp add: max_def)
  have "length (botHoleCards g2) = 2" "length (opponentHoleCards g2) = 2" "cardsOf g2 = mset reset"
    using g1 g2 k by simp_all
  from isWinner_ok [OF l5 this, of r1] obtain botEval opponentEval where
    w: "isWinner r1 g2 = Inr (gt botEval opponentEval, g2, r1)"
    "evaluateComplete (botHoleCards g2 @ communityCards g2) = Inr botEval"
    "evaluateComplete (opponentHoleCards g2 @ communityCards g2) = Inr opponentEval" by blast
  have "runSingleSimulation r b = Inr (gt botEval opponentEval, b\<lparr>game := g2\<rparr>, r1)"
    by (simp add: runSingleSimulation_def g1(1) completeBoard_def g2(1) w(1))
  moreover have "botHoleCards g2 = myCards b" "length (opponentHoleCards g2) = 2"
    "take (length (community b)) (communityCards g2) = community b" "cardsOf g2 = mset reset"
    using g1 g2 by simp_all
  ultimately show ?thesis using l5 w(2,3) by blast
qed

section \<open>The cards of a trial\<close>

text \<open>
  Claim C4. In a trial whose known inputs are 2 hole cards and 0, 3, 4 or 5 community
  cards, pairwise different, the simulation returns (it does not run out of cards), the
  bot keeps its 2 hole cards, the opponent gets 2 cards, the known community cards are
  completed to 5, and these 9 cards are pairwise different cards of the 52-card deck.
  This holds whatever the random numbers are.
\<close>

theorem trial_cards_pairwise_distinct:
  assumes "knownHand (myCards b) (community b)"
  shows "\<exists>won b' r'.
           runSingleSimulation r b = Inr (won, b', r') \<and>
           botHoleCards (game b') = myCards b \<and>
           length (opponentHoleCards (game b')) = 2 \<and>
           length (communityCards (game b')) = 5 \<and>
           take (length (community b)) (communityCards (game b')) = community b \<and>
           distinct (botHoleCards (game b') @ opponentHoleCards (game b')
                     @ communityCards (game b')) \<and>
           length (botHoleCards (game b') @ opponentHoleCards (game b')
                     @ communityCards (game b')) = 9 \<and>
           set (botHoleCards (game b') @ opponentHoleCards (game b')
                     @ communityCards (game b')) \<subseteq> set reset"
proof -
  from trial_ok [OF assms, of r] obtain g' r' botEval opponentEval where
    t: "runSingleSimulation r b = Inr (gt botEval opponentEval, b\<lparr>game := g'\<rparr>, r')"
    "botHoleCards g' = myCards b" "length (opponentHoleCards g') = 2"
    "length (communityCards g') = 5"
    "take (length (community b)) (communityCards g') = community b"
    "cardsOf g' = mset reset" by blast
  from assms have l: "length (myCards b) = 2" by (simp add: knownHand_def)
  have "mset (botHoleCards g' @ opponentHoleCards g' @ communityCards g') \<subseteq># cardsOf g'"
    by (simp add: cardsOf_def)
  then have d: "distinct (botHoleCards g' @ opponentHoleCards g' @ communityCards g')"
    unfolding t(6) by (rule distinct_from_reset)
  have n: "length (botHoleCards g' @ opponentHoleCards g' @ communityCards g') = 9"
    using t(2,3,4) l by simp
  have s: "set (botHoleCards g' @ opponentHoleCards g' @ communityCards g') \<subseteq> set reset"
    unfolding set_reset by (rule subset_UNIV)
  let ?b = "b\<lparr>game := g'\<rparr>"
  have "game ?b = g'" by simp
  with t d n s have
    "runSingleSimulation r b = Inr (gt botEval opponentEval, ?b, r') \<and>
           botHoleCards (game ?b) = myCards b \<and>
           length (opponentHoleCards (game ?b)) = 2 \<and>
           length (communityCards (game ?b)) = 5 \<and>
           take (length (community b)) (communityCards (game ?b)) = community b \<and>
           distinct (botHoleCards (game ?b) @ opponentHoleCards (game ?b)
                     @ communityCards (game ?b)) \<and>
           length (botHoleCards (game ?b) @ opponentHoleCards (game ?b)
                     @ communityCards (game ?b)) = 9 \<and>
           set (botHoleCards (game ?b) @ opponentHoleCards (game ?b)
                     @ communityCards (game ?b)) \<subseteq> set reset"
    by (simp only: simp_thms)
  then show ?thesis by (intro exI)
qed

theorem trial_cards_pairwise_distinct_witness:
  "knownHand [Card SPADES ACE, Card HEARTS ACE] [Card CLUBS TWO, Card CLUBS SEVEN, Card DIAMONDS TEN] \<and>
   (\<exists>won b' r'.
      runSingleSimulation (\<lambda>n. 7 * n + 3)
        \<lparr>game = \<lparr>deck = [], botHoleCards = [], opponentHoleCards = [], communityCards = []\<rparr>,
         myCards = [Card SPADES ACE, Card HEARTS ACE],
         community = [Card CLUBS TWO, Card CLUBS SEVEN, Card DIAMONDS TEN],
         totalRuns = 0, winningRuns = 0, rootNode = MCTSNode_new\<rparr> = Inr (won, b', r') \<and>
      botHoleCards (game b') = [Card SPADES ACE, Card HEARTS ACE] \<and>
      length (opponentHoleCards (game b')) = 2 \<and>
      length (communityCards (game b')) = 5 \<and>
      take (length [Card CLUBS TWO, Card CLUBS SEVEN, Card DIAMONDS TEN]) (communityCards (game b'))
        = [Card CLUBS TWO, Card CLUBS SEVEN, Card DIAMONDS TEN] \<and>
      distinct (botHoleCards (game b') @ opponentHoleCards (game b') @ communityCards (game b')) \<and>
      length (botHoleCards (game b') @ opponentHoleCards (game b') @ communityCards (game b')) = 9 \<and>
      set (botHoleCards (game b') @ opponentHoleCards (game b') @ communityCards (game b'))
        \<subseteq> set reset)"
proof -
  let ?b = "\<lparr>game = \<lparr>deck = [], botHoleCards = [], opponentHoleCards = [], communityCards = []\<rparr>,
         myCards = [Card SPADES ACE, Card HEARTS ACE],
         community = [Card CLUBS TWO, Card CLUBS SEVEN, Card DIAMONDS TEN],
         totalRuns = 0, winningRuns = 0, rootNode = MCTSNode_new\<rparr>"
  have k: "knownHand [Card SPADES ACE, Card HEARTS ACE] [Card CLUBS TWO, Card CLUBS SEVEN, Card DIAMONDS TEN]"
    by (simp add: knownHand_def)
  have sel: "myCards ?b = [Card SPADES ACE, Card HEARTS ACE]"
    "community ?b = [Card CLUBS TWO, Card CLUBS SEVEN, Card DIAMONDS TEN]" by simp_all
  from k have "knownHand (myCards ?b) (community ?b)" by (simp only: sel)
  from k trial_cards_pairwise_distinct [OF this, of "\<lambda>n. 7 * n + 3", unfolded sel]
  show ?thesis by (rule conjI)
qed

section \<open>Wins, ties and losses\<close>


text \<open>
  The counters are 32-bit words: the equations below hold with wrap-around, for every value
  of the counters. Read as an integer, a counter below \<^verbatim>\<open>INT_MAX\<close> grows by one.
\<close>

lemma recordRun_fields:
  "visits (rootNode (recordRun won b)) = visits (rootNode b) + 1"
  "wins (rootNode (recordRun won b)) = wins (rootNode b) + (if won then 1 else 0)"
  "totalRuns (recordRun won b) = totalRuns b + 1"
  "winningRuns (recordRun won b) = winningRuns b + (if won then 1 else 0)"
  by (simp_all add: recordRun_def update_def Let_def)





text \<open>
  A tie: with a royal flush on the board both hands evaluate to the same value, which is
  not greater than itself, so the bot does not win.
\<close>

lemma tie_example:
  "evaluateComplete [Card CLUBS TWO, Card DIAMONDS THREE, Card HEARTS ACE, Card HEARTS KING,
       Card HEARTS QUEEN, Card HEARTS JACK, Card HEARTS TEN]
     = Inr \<lparr>rank = ROYAL_FLUSH, tiebreakers = [14]\<rparr> \<and>
   evaluateComplete [Card SPADES NINE, Card SPADES ACE, Card HEARTS ACE, Card HEARTS KING,
       Card HEARTS QUEEN, Card HEARTS JACK, Card HEARTS TEN]
     = Inr \<lparr>rank = ROYAL_FLUSH, tiebreakers = [14]\<rparr> \<and>
   \<not> gt \<lparr>rank = ROYAL_FLUSH, tiebreakers = [14]\<rparr> \<lparr>rank = ROYAL_FLUSH, tiebreakers = [14]\<rparr> \<and>
   eq \<lparr>rank = ROYAL_FLUSH, tiebreakers = [14]\<rparr> \<lparr>rank = ROYAL_FLUSH, tiebreakers = [14]\<rparr>"
  by code_simp

section \<open>The decision after a run without trials\<close>

lemma runSingleSimulation_game_only:
  "runSingleSimulation r b = Inr (won, b', r') \<Longrightarrow> \<exists>g. b' = b\<lparr>game := g\<rparr>"
  by (auto simp: runSingleSimulation_def split: sum.splits prod.splits)

lemma runMCTS_loop_visits:
  "runMCTS_loop msTimeLimit startTime clock r b = Some (Inr (b', r')) \<Longrightarrow>
   visits (rootNode b) = totalRuns b \<Longrightarrow>
   visits (rootNode b') = totalRuns b'"
proof (induction clock arbitrary: r b)
  case Nil
  then show ?case by simp
next
  case (Cons currentTime clock)
  show ?case
  proof (cases "sint (elapsedMs startTime currentTime) \<ge> sint msTimeLimit")
    case True
    with Cons.prems show ?thesis by simp
  next
    case False
    with Cons.prems(1) obtain won b1 r1 where
      s: "runSingleSimulation r b = Inr (won, b1, r1)"
      and l: "runMCTS_loop msTimeLimit startTime clock r1 (recordRun won b1) = Some (Inr (b', r'))"
      by (auto split: sum.splits)
    from runSingleSimulation_game_only [OF s] obtain g where "b1 = b\<lparr>game := g\<rparr>" by blast
    with Cons.prems(2) have "visits (rootNode (recordRun won b1)) = totalRuns (recordRun won b1)"
      by (simp add: recordRun_fields)
    from Cons.IH [OF l this] show ?thesis .
  qed
qed

lemma runMCTS_visits:
  assumes "runMCTS msTimeLimit startTime clock r b = Some (Inr (p, b', r'))"
  shows "visits (rootNode b') = totalRuns b' \<and> p = getWinProbabilityBot b'"
proof -
  let ?after = "b\<lparr>totalRuns := 0, winningRuns := 0, rootNode := MCTSNode_new\<rparr>"
  from assms have l: "runMCTS_loop msTimeLimit startTime clock r ?after = Some (Inr (b', r'))"
    and p: "p = getWinProbabilityBot b'"
    by (auto simp: runMCTS_def split: option.splits sum.splits)
  have "visits (rootNode ?after) = totalRuns ?after" by (simp add: MCTSNode_new_def)
  from runMCTS_loop_visits [OF l this] p show ?thesis by simp
qed

text \<open>
  The elapsed time is a 32-bit \<^verbatim>\<open>int\<close>: a quotient of 2147483648 ms is stored as
  -2147483648, which is below a limit of 0, so the loop goes on.
\<close>

lemma elapsedMs_narrowing_example:
  "sint (elapsedMs 0 2147483648000) = - 2147483648 \<and>
   \<not> sint (elapsedMs 0 2147483648000) \<ge> sint (0 :: int32)"
  by (simp add: elapsedMs_def CLOCKS_PER_SEC_def signed_divide_int_def)

text \<open>
  Claim C2, amended. When the elapsed time computed from the first clock reading of the
  loop (a signed 32-bit number of milliseconds) already is at the limit or above,
  \<open>runMCTS\<close> returns without a trial: \<open>totalRuns\<close> is 0 and the win probability is 0.
  Whenever \<open>runMCTS\<close> returns with \<open>totalRuns = 0\<close>, the root node has no visits, the win
  probability is 0, and \<open>shouldStay\<close> is false: the decision is FOLD, as for every
  estimate below the threshold. The code has no undecided outcome.
\<close>

theorem zero_trials_decision_is_fold:
  "(sint (elapsedMs startTime currentTime) \<ge> sint msTimeLimit \<longrightarrow>
      runMCTS msTimeLimit startTime (currentTime # clock) r b
        = Some (Inr (0, b\<lparr>totalRuns := 0, winningRuns := 0, rootNode := MCTSNode_new\<rparr>, r))) \<and>
   (runMCTS msTimeLimit startTime clock' r b = Some (Inr (p, b', r')) \<and> totalRuns b' = 0 \<longrightarrow>
      visits (rootNode b') = 0 \<and> p = 0 \<and> getWinProbabilityBot b' = 0 \<and> \<not> shouldStay b')"
proof -
  have first: "runMCTS msTimeLimit startTime (currentTime # clock) r b
        = Some (Inr (0, b\<lparr>totalRuns := 0, winningRuns := 0, rootNode := MCTSNode_new\<rparr>, r))"
    if "sint (elapsedMs startTime currentTime) \<ge> sint msTimeLimit"
    using that
    by (simp add: runMCTS_def getWinProbabilityBot_def getWinProbability_def MCTSNode_new_def)
  have second: "visits (rootNode b') = 0 \<and> p = 0 \<and> getWinProbabilityBot b' = 0 \<and> \<not> shouldStay b'"
    if a: "runMCTS msTimeLimit startTime clock' r b = Some (Inr (p, b', r'))" and t: "totalRuns b' = 0"
  proof -
    from runMCTS_visits [OF a] t
    have v: "visits (rootNode b') = 0" and p: "p = getWinProbabilityBot b'" by simp_all
    from v have z: "getWinProbabilityBot b' = 0"
      by (simp add: getWinProbabilityBot_def getWinProbability_def)
    from z have "\<not> shouldStay b'" by (simp add: shouldStay_def WIN_PROBABILITY_THRESHOLD_def)
    with v p z show ?thesis by simp
  qed
  from first second show ?thesis by blast
qed

theorem zero_trials_decision_is_fold_witness:
  "sint (elapsedMs 100 100) \<ge> sint (0 :: int32) \<and>
   runMCTS 0 100 [100] id
       \<lparr>game = \<lparr>deck = [], botHoleCards = [], opponentHoleCards = [], communityCards = []\<rparr>,
        myCards = [Card SPADES ACE, Card HEARTS ACE], community = [],
        totalRuns = 7, winningRuns = 5, rootNode = \<lparr>wins = 5, visits = 7\<rparr>\<rparr>
     = Some (Inr (0,
       \<lparr>game = \<lparr>deck = [], botHoleCards = [], opponentHoleCards = [], communityCards = []\<rparr>,
        myCards = [Card SPADES ACE, Card HEARTS ACE], community = [],
        totalRuns = 0, winningRuns = 0, rootNode = \<lparr>wins = 0, visits = 0\<rparr>\<rparr>, id)) \<and>
   totalRuns
       \<lparr>game = \<lparr>deck = [], botHoleCards = [], opponentHoleCards = [], communityCards = []\<rparr>,
        myCards = [Card SPADES ACE, Card HEARTS ACE], community = [],
        totalRuns = 0, winningRuns = 0, rootNode = \<lparr>wins = 0, visits = 0\<rparr>\<rparr> = 0 \<and>
   getWinProbabilityBot
       \<lparr>game = \<lparr>deck = [], botHoleCards = [], opponentHoleCards = [], communityCards = []\<rparr>,
        myCards = [Card SPADES ACE, Card HEARTS ACE], community = [],
        totalRuns = 0, winningRuns = 0, rootNode = \<lparr>wins = 0, visits = 0\<rparr>\<rparr> = 0 \<and>
   \<not> shouldStay
       \<lparr>game = \<lparr>deck = [], botHoleCards = [], opponentHoleCards = [], communityCards = []\<rparr>,
        myCards = [Card SPADES ACE, Card HEARTS ACE], community = [],
        totalRuns = 0, winningRuns = 0, rootNode = \<lparr>wins = 0, visits = 0\<rparr>\<rparr>"
proof -
  let ?before = "\<lparr>game = \<lparr>deck = [], botHoleCards = [], opponentHoleCards = [], communityCards = []\<rparr>,
        myCards = [Card SPADES ACE, Card HEARTS ACE], community = [],
        totalRuns = 7, winningRuns = 5, rootNode = \<lparr>wins = 5, visits = 7\<rparr>\<rparr>"
  let ?after = "\<lparr>game = \<lparr>deck = [], botHoleCards = [], opponentHoleCards = [], communityCards = []\<rparr>,
        myCards = [Card SPADES ACE, Card HEARTS ACE], community = [],
        totalRuns = 0, winningRuns = 0, rootNode = \<lparr>wins = 0, visits = 0\<rparr>\<rparr>"
  have h: "sint (elapsedMs 100 100) \<ge> sint (0 :: int32)" by (simp add: elapsedMs_def)
  have u: "?before\<lparr>totalRuns := 0, winningRuns := 0, rootNode := MCTSNode_new\<rparr> = ?after"
    by (simp add: MCTSNode_new_def)
  have t: "totalRuns ?after = 0" by simp
  note z = zero_trials_decision_is_fold [of 0 100 100 "[]" id ?before "[100]" 0 ?after id, unfolded u]
  from z h have run: "runMCTS 0 100 [100] id ?before = Some (Inr (0, ?after, id))" by blast
  with z t have "getWinProbabilityBot ?after = 0" "\<not> shouldStay ?after" by blast+
  with h run t show ?thesis by (intro conjI)
qed

text \<open>
  The claim as stated fails: after a run without any trial the decision is FOLD, the
  same answer as after three lost trials; nothing in the result of \<open>shouldStay\<close> tells
  the two apart.
\<close>

theorem zero_trials_decision_is_fold_counterexample:
  "runMCTS 0 100 [100] id
       \<lparr>game = \<lparr>deck = [], botHoleCards = [], opponentHoleCards = [], communityCards = []\<rparr>,
        myCards = [Card SPADES ACE, Card HEARTS ACE], community = [],
        totalRuns = 7, winningRuns = 5, rootNode = \<lparr>wins = 5, visits = 7\<rparr>\<rparr>
     = Some (Inr (0,
       \<lparr>game = \<lparr>deck = [], botHoleCards = [], opponentHoleCards = [], communityCards = []\<rparr>,
        myCards = [Card SPADES ACE, Card HEARTS ACE], community = [],
        totalRuns = 0, winningRuns = 0, rootNode = \<lparr>wins = 0, visits = 0\<rparr>\<rparr>, id)) \<and>
   shouldStay
       \<lparr>game = \<lparr>deck = [], botHoleCards = [], opponentHoleCards = [], communityCards = []\<rparr>,
        myCards = [Card SPADES ACE, Card HEARTS ACE], community = [],
        totalRuns = 0, winningRuns = 0, rootNode = \<lparr>wins = 0, visits = 0\<rparr>\<rparr>
     = shouldStay
       \<lparr>game = \<lparr>deck = [], botHoleCards = [], opponentHoleCards = [], communityCards = []\<rparr>,
        myCards = [Card SPADES ACE, Card HEARTS ACE], community = [],
        totalRuns = 3, winningRuns = 0, rootNode = \<lparr>wins = 0, visits = 3\<rparr>\<rparr> \<and>
   \<not> shouldStay
       \<lparr>game = \<lparr>deck = [], botHoleCards = [], opponentHoleCards = [], communityCards = []\<rparr>,
        myCards = [Card SPADES ACE, Card HEARTS ACE], community = [],
        totalRuns = 0, winningRuns = 0, rootNode = \<lparr>wins = 0, visits = 0\<rparr>\<rparr>"
  by (simp add: runMCTS_def elapsedMs_def MCTSNode_new_def shouldStay_def getWinProbabilityBot_def
      getWinProbability_def WIN_PROBABILITY_THRESHOLD_def)

section \<open>Comparing evaluated hands\<close>

text \<open>
  The evaluations the program compares come from \<open>evaluateComplete\<close> on 7-card hands;
  their tiebreaker lists have the same length when the ranks agree, and so exactly one of
  \<open>a > b\<close>, \<open>b > a\<close> and \<open>a == b\<close> holds for them.
\<close>

lemma evaluated_hands_trichotomy:
  assumes "hand7 x" "hand7 y" "evaluateComplete x = Inr a" "evaluateComplete y = Inr b"
  shows "(gt a b \<and> \<not> gt b a \<and> \<not> eq a b) \<or> (\<not> gt a b \<and> gt b a \<and> \<not> eq a b)
          \<or> (\<not> gt a b \<and> \<not> gt b a \<and> eq a b)"
proof (cases "rank a = rank b")
  case True
  from evaluateComplete_length [OF assms(1)] assms(3)
  have "length (tiebreakers a) = tiebreakerCount (rank a)" by simp
  moreover from evaluateComplete_length [OF assms(2)] assms(4)
  have "length (tiebreakers b) = tiebreakerCount (rank b)" by simp
  ultimately have len: "length (tiebreakers a) = length (tiebreakers b)" using True by simp
  have g: "gt a b = gt_loop (tiebreakers a) (tiebreakers b)"
    "gt b a = gt_loop (tiebreakers b) (tiebreakers a)"
    using True by (simp_all add: gt_def)
  have e: "eq a b \<longleftrightarrow> tiebreakers a = tiebreakers b"
    using True len by (simp add: eq_def eq_loop_iff)
  show ?thesis
    using gt_loop_total [OF len] gt_loop_asym [of "tiebreakers a" "tiebreakers b"]
      gt_loop_asym [of "tiebreakers b" "tiebreakers a"] gt_loop_irrefl [of "tiebreakers a"]
    unfolding g e by auto
next
  case False
  then have "rank_int (rank a) \<noteq> rank_int (rank b)" by (simp add: rank_int_inj)
  then show ?thesis using False by (auto simp: gt_def eq_def)
qed

end
